theory Spec2Isabelle
  imports Complex_Main "HOL-Library.Multiset" "HOL-Library.Product_Lexorder"
begin

section \<open>Python values and exceptions\<close>

text \<open>
  The exceptions the modelled functions can raise. \<open>Empty\<close> is \<open>queue.Empty\<close>, which the
  worker loops catch; every other exception is uncaught in the sources.
\<close>

datatype py_error =
  Empty | KeyError | IndexError | TypeError | ValueError | ZeroDivisionError | OverflowError

text \<open>
  Python floats are modelled as exact reals. A float operation whose result is not a finite
  number (\<open>nan\<close>, \<open>inf\<close>) yields \<open>None\<close>.
\<close>

text \<open>\<open>range(a, b)\<close> over unbounded Python integers: empty when \<open>b \<le> a\<close>.\<close>

definition range_py :: "int \<Rightarrow> int \<Rightarrow> int list" where
  "range_py a b = [a..b - 1]"

text \<open>\<open>int(x)\<close> of a float truncates towards zero.\<close>

definition py_int :: "real \<Rightarrow> int" where
  "py_int x = (if 0 \<le> x then \<lfloor>x\<rfloor> else \<lceil>x\<rceil>)"

section \<open>MultiprocessingDemonstrationPool.py: the two computations of pi\<close>

text \<open>
  \<^verbatim>\<open>
  def ComputePi(N, ID):
      Sum = 0
      for n in range(0,N):
          Sum += 4*(-1)**(n)/(2*n+1)
      return (ID, Sum)
  \<close>
\<close>

definition ComputePi :: "int \<Rightarrow> 'id \<Rightarrow> 'id \<times> real" where
  "ComputePi N ID =
     (ID, fold (\<lambda>n Sum. Sum + 4 * (- 1) ^ nat n / (2 * real_of_int n + 1)) (range_py 0 N) 0)"

text \<open>
  \<open>numpy.linspace(start, stop, num)\<close>: \<open>num\<close> evenly spaced samples over the closed interval,
  \<open>start + i * (stop - start) / (num - 1)\<close>; the single sample for \<open>num = 1\<close> is \<open>start\<close>;
  a negative \<open>num\<close> raises \<open>ValueError\<close>.
\<close>

definition linspace :: "real \<Rightarrow> real \<Rightarrow> int \<Rightarrow> py_error + real list" where
  "linspace start stop num =
     (if num < 0 then Inl ValueError
      else Inr (map (\<lambda>i. if 1 < num then start + real_of_int i * ((stop - start) / real_of_int (num - 1))
                          else start)
                    (range_py 0 num)))"

text \<open>
  Float power \<open>b ** x\<close> as numpy computes it: an integral exponent gives the integer power,
  a positive base the real power, and a non-positive base with a fractional exponent is \<open>nan\<close>.
\<close>

definition np_power :: "real \<Rightarrow> real \<Rightarrow> real option" where
  "np_power b x =
     (if real_of_int \<lfloor>x\<rfloor> = x then (if b = 0 \<and> x < 0 then None else Some (b powi \<lfloor>x\<rfloor>))
      else if 0 < b then Some (b powr x)
      else None)"

text \<open>Float division of numpy arrays: dividing by zero gives \<open>inf\<close> or \<open>nan\<close>, no exception.\<close>

definition np_divide :: "real \<Rightarrow> real \<Rightarrow> real option" where
  "np_divide a b = (if b = 0 then None else Some (a / b))"

text \<open>\<open>numpy.sum\<close> of a float array: not finite as soon as one element is not.\<close>

fun np_sum :: "real option list \<Rightarrow> real option" where
  "np_sum [] = Some 0"
| "np_sum (None # xs) = None"
| "np_sum (Some x # xs) = (case np_sum xs of None \<Rightarrow> None | Some s \<Rightarrow> Some (x + s))"

text \<open>
  \<^verbatim>\<open>
  def ComputePiVectorised(N, ID):
      RangeOfn = np.linspace(0,N-1,N)
      Summands = (-1)**(RangeOfn)/(2*RangeOfn+1)
      Sum = 4*np.sum(Summands)
      return (ID, Sum)
  \<close>
\<close>

definition ComputePiVectorised :: "int \<Rightarrow> 'id \<Rightarrow> py_error + ('id \<times> real option)" where
  "ComputePiVectorised N ID =
     (case linspace 0 (real_of_int N - 1) N of
        Inl e \<Rightarrow> Inl e
      | Inr RangeOfn \<Rightarrow>
          let Summands = map (\<lambda>x. case np_power (- 1) x of
                                      None \<Rightarrow> None
                                    | Some p \<Rightarrow> np_divide p (2 * x + 1)) RangeOfn;
              Sum = map_option (\<lambda>s. 4 * s) (np_sum Summands)
          in Inr (ID, Sum))"

section \<open>MultiprocessingDemonstrationNestingProcessAndPool.py: the reduction\<close>

text \<open>
  Line 54 of \<open>JobToPerformTasks\<close>:
  \<^verbatim>\<open>Sum = int(np.sum(ListOfSums)/(0.5*NumberOfSubtasksInOneTask*RandomWeight))\<close>
  A zero divisor makes the quotient \<open>nan\<close> (zero sum) or \<open>inf\<close>, and \<open>int\<close> then raises
  \<open>ValueError\<close> or \<open>OverflowError\<close>.
\<close>

definition JobToPerformTasks_Sum :: "real list \<Rightarrow> int \<Rightarrow> int \<Rightarrow> py_error + int" where
  "JobToPerformTasks_Sum ListOfSums NumberOfSubtasksInOneTask RandomWeight =
     (let d = 0.5 * real_of_int NumberOfSubtasksInOneTask * real_of_int RandomWeight
      in if d = 0 then (if sum_list ListOfSums = 0 then Inl ValueError else Inl OverflowError)
         else Inr (py_int (sum_list ListOfSums / d)))"

text \<open>The distance test of a tolerance check: \<open>x\<close> lies within \<open>tol\<close> of \<open>c\<close>.\<close>

definition within_tolerance :: "real \<Rightarrow> real \<Rightarrow> real \<Rightarrow> bool" where
  "within_tolerance tol x c = (\<bar>x - c\<bar> \<le> tol)"

section \<open>MultiprocessingDemonstrationManagerDictOfDicts.py: the shared dictionary\<close>

text \<open>
  The values stored in an inner dictionary (\<open>'Sequence'\<close> is a list of integers,
  \<open>'CompFinished'\<close> a boolean, \<open>'P'\<close> and \<open>'Q'\<close> integers), and an inner dictionary, keyed by
  strings.
\<close>

datatype pyval = PyList "int list" | PyBool bool | PyInt int

type_synonym inner_dict = "string \<rightharpoonup> pyval"

text \<open>
  \<open>MyManagersDict\<close> lives in the manager process. A worker holds a proxy, and each access
  through the proxy is one request to the manager: \<open>Dict[k]\<close> (\<open>GetItem\<close>) returns a copy of
  the inner dictionary, \<open>Dict[k] = d\<close> (\<open>SetItem\<close>) replaces the entry by a copy of \<open>d\<close>.
  No other request is sent by \<open>Worker\<close>. \<open>Dict\<close> is the dictionary in the manager,
  \<open>Requests\<close> the history of the requests it has served.
\<close>

datatype request = GetItem int | SetItem int inner_dict

record manager =
  Dict :: "int \<rightharpoonup> inner_dict"
  Requests :: "request list"

definition getitem :: "manager \<Rightarrow> int \<Rightarrow> (py_error + inner_dict) \<times> manager" where
  "getitem m k =
     ((case Dict m k of None \<Rightarrow> Inl KeyError | Some d \<Rightarrow> Inr d),
      m\<lparr>Requests := Requests m @ [GetItem k]\<rparr>)"

definition setitem :: "manager \<Rightarrow> int \<Rightarrow> inner_dict \<Rightarrow> manager" where
  "setitem m k d = m\<lparr>Dict := (Dict m)(k \<mapsto> d), Requests := Requests m @ [SetItem k d]\<rparr>"

text \<open>The effect of a request on the dictionary in the manager, and the key it names.\<close>

fun apply_request :: "request \<Rightarrow> (int \<rightharpoonup> inner_dict) \<Rightarrow> (int \<rightharpoonup> inner_dict)" where
  "apply_request (GetItem k) D = D"
| "apply_request (SetItem k d) D = D(k \<mapsto> d)"

fun request_key :: "request \<Rightarrow> int" where
  "request_key (GetItem k) = k"
| "request_key (SetItem k d) = k"

text \<open>\<open>d[k]\<close> on a local (copied) inner dictionary, and the comparison \<open>v == False\<close>.\<close>

definition subscript :: "inner_dict \<Rightarrow> string \<Rightarrow> py_error + pyval" where
  "subscript d k = (case d k of None \<Rightarrow> Inl KeyError | Some v \<Rightarrow> Inr v)"

definition py_eq_False :: "pyval \<Rightarrow> bool" where
  "py_eq_False v = (case v of PyBool b \<Rightarrow> \<not> b | PyInt i \<Rightarrow> i = 0 | PyList xs \<Rightarrow> False)"

text \<open>
  \<^verbatim>\<open>
  def ComputeNextElementOfLucasSequence(Sequence,P,Q):
      return P*Sequence[-1] - Q*Sequence[-2]
  \<close>
\<close>

definition ComputeNextElementOfLucasSequence :: "int list \<Rightarrow> int \<Rightarrow> int \<Rightarrow> py_error + int" where
  "ComputeNextElementOfLucasSequence Sequence P Q =
     (if length Sequence < 2 then Inl IndexError
      else Inr (P * last Sequence - Q * Sequence ! (length Sequence - 2)))"

text \<open>
  The sequence that repeated calls build: \<open>Lucas_extend n P Q Sequence\<close> appends \<open>n\<close> times
  the next element (and stops where the function raises). \<open>Worker\<close> builds a prefix of it,
  up to the first element that is at least \<open>1000\<close>.
\<close>

fun Lucas_extend :: "nat \<Rightarrow> int \<Rightarrow> int \<Rightarrow> int list \<Rightarrow> int list" where
  "Lucas_extend 0 P Q Sequence = Sequence"
| "Lucas_extend (Suc n) P Q Sequence =
     (case ComputeNextElementOfLucasSequence Sequence P Q of
        Inl e \<Rightarrow> Sequence
      | Inr x \<Rightarrow> Lucas_extend n P Q (Sequence @ [x]))"

text \<open>
  \<open>Worker\<close>, statement by statement. Every part returns the manager's state with its
  outcome, so that an exception keeps the requests made before it.

  The loop condition \<^verbatim>\<open>Dict[Key]['CompFinished']==False\<close>:
\<close>

definition Worker_condition :: "manager \<Rightarrow> int \<Rightarrow> (py_error + bool) \<times> manager" where
  "Worker_condition m Key =
     (case getitem m Key of
        (Inl e, m1) \<Rightarrow> (Inl e, m1)
      | (Inr d, m1) \<Rightarrow>
          (case subscript d ''CompFinished'' of
             Inl e \<Rightarrow> (Inl e, m1)
           | Inr v \<Rightarrow> (Inr (py_eq_False v), m1)))"

text \<open>The criterion \<^verbatim>\<open>Dict[Key]['Sequence'][-1]>=1000\<close>:\<close>

definition Worker_criterion :: "manager \<Rightarrow> int \<Rightarrow> (py_error + bool) \<times> manager" where
  "Worker_criterion m Key =
     (case getitem m Key of
        (Inl e, m1) \<Rightarrow> (Inl e, m1)
      | (Inr d, m1) \<Rightarrow>
          (case subscript d ''Sequence'' of
             Inl e \<Rightarrow> (Inl e, m1)
           | Inr (PyList Sequence) \<Rightarrow>
               if Sequence = [] then (Inl IndexError, m1) else (Inr (1000 \<le> last Sequence), m1)
           | Inr v \<Rightarrow> (Inl TypeError, m1)))"

text \<open>
  The branch taken when the criterion holds; it ends in \<open>break\<close>, which the returned
  \<open>True\<close> reports.
  \<^verbatim>\<open>
  TemporaryDict = Dict[Key]
  TemporaryDict['CompFinished'] = True
  TemporaryDict['P'] = P
  TemporaryDict['Q'] = Q
  Dict[Key] = TemporaryDict
  break
  \<close>
\<close>

definition Worker_finish :: "int \<Rightarrow> int \<Rightarrow> manager \<Rightarrow> int \<Rightarrow> (py_error + bool) \<times> manager" where
  "Worker_finish P Q m Key =
     (case getitem m Key of
        (Inl e, m1) \<Rightarrow> (Inl e, m1)
      | (Inr TemporaryDict, m1) \<Rightarrow>
          let TemporaryDict = TemporaryDict(''CompFinished'' \<mapsto> PyBool True);
              TemporaryDict = TemporaryDict(''P'' \<mapsto> PyInt P);
              TemporaryDict = TemporaryDict(''Q'' \<mapsto> PyInt Q)
          in (Inr True, setitem m1 Key TemporaryDict))"

text \<open>
  One pass through the body of the \<open>while\<close> loop; the boolean tells whether \<open>break\<close> was
  executed.
  \<^verbatim>\<open>
  TemporaryDict = Dict[Key]
  TemporaryDict['Sequence'] = TemporaryDict['Sequence'] +
      [ComputeNextElementOfLucasSequence(TemporaryDict['Sequence'],P,Q)]
  Dict[Key] = TemporaryDict
  if Dict[Key]['Sequence'][-1]>=1000:
      ...
  \<close>
\<close>

definition Worker_body :: "int \<Rightarrow> int \<Rightarrow> manager \<Rightarrow> int \<Rightarrow> (py_error + bool) \<times> manager" where
  "Worker_body P Q m Key =
     (case getitem m Key of
        (Inl e, m1) \<Rightarrow> (Inl e, m1)
      | (Inr TemporaryDict, m1) \<Rightarrow>
          (case subscript TemporaryDict ''Sequence'' of
             Inl e \<Rightarrow> (Inl e, m1)
           | Inr (PyList Sequence) \<Rightarrow>
               (case ComputeNextElementOfLucasSequence Sequence P Q of
                  Inl e \<Rightarrow> (Inl e, m1)
                | Inr x \<Rightarrow>
                    let TemporaryDict = TemporaryDict(''Sequence'' \<mapsto> PyList (Sequence @ [x]));
                        m2 = setitem m1 Key TemporaryDict
                    in (case Worker_criterion m2 Key of
                          (Inl e, m3) \<Rightarrow> (Inl e, m3)
                        | (Inr True, m3) \<Rightarrow> Worker_finish P Q m3 Key
                        | (Inr False, m3) \<Rightarrow> (Inr False, m3)))
           | Inr v \<Rightarrow> (Inl TypeError, m1)))"

text \<open>
  The \<open>while\<close> loop. It need not end for every \<open>P\<close> and \<open>Q\<close> (with \<open>P = Q = 0\<close> the sequence
  stays at \<open>0\<close>), so not returning is the value \<open>None\<close>.
\<close>

partial_function (option) Worker_while ::
  "int \<Rightarrow> int \<Rightarrow> manager \<Rightarrow> int \<Rightarrow> ((py_error + unit) \<times> manager) option" where
  "Worker_while P Q m Key =
     (case Worker_condition m Key of
        (Inl e, m1) \<Rightarrow> Some (Inl e, m1)
      | (Inr c, m1) \<Rightarrow>
          if c then
            (case Worker_body P Q m1 Key of
               (Inl e, m2) \<Rightarrow> Some (Inl e, m2)
             | (Inr break, m2) \<Rightarrow> if break then Some (Inr (), m2) else Worker_while P Q m2 Key)
          else Some (Inr (), m1))"

declare Worker_while.simps [code]

text \<open>
  \<open>Worker(Dict, Key)\<close>. \<open>P\<close> and \<open>Q\<close> are the numbers that \<open>random.randint(1,Key)\<close> and
  \<open>random.randint(-Key,-1)\<close> return; \<open>randint\<close> raises \<open>ValueError\<close> on the empty range
  that \<open>Key < 1\<close> gives.
\<close>

definition Worker :: "int \<Rightarrow> int \<Rightarrow> manager \<Rightarrow> int \<Rightarrow> ((py_error + unit) \<times> manager) option" where
  "Worker P Q m Key = (if Key < 1 then Some (Inl ValueError, m) else Worker_while P Q m Key)"

text \<open>
  Request sequences in which every write is the write-back of a read. Every request names
  \<open>Key\<close>; every \<open>SetItem\<close> directly follows a \<open>GetItem\<close>, and the value it writes is the entry
  as it stands in the manager (the copy that the \<open>GetItem\<close> returned) with the sequence
  extended by its next element, or with \<open>CompFinished\<close>, \<open>P\<close> and \<open>Q\<close> set. \<open>D\<close> is the
  dictionary before the requests, and \<open>read\<close> tells whether the request before them was a
  \<open>GetItem\<close>.
\<close>

fun write_backs ::
  "int \<Rightarrow> int \<Rightarrow> int \<Rightarrow> (int \<rightharpoonup> inner_dict) \<Rightarrow> bool \<Rightarrow> request list \<Rightarrow> bool" where
  "write_backs P Q Key D read [] = True"
| "write_backs P Q Key D read (GetItem k # rs) = (k = Key \<and> write_backs P Q Key D True rs)"
| "write_backs P Q Key D read (SetItem k d # rs) =
     (k = Key \<and> read
      \<and> (case D Key of
            None \<Rightarrow> False
          | Some e \<Rightarrow>
              d = e(''CompFinished'' \<mapsto> PyBool True, ''P'' \<mapsto> PyInt P, ''Q'' \<mapsto> PyInt Q)
              \<or> (case e ''Sequence'' of
                    Some (PyList Sequence) \<Rightarrow>
                      (case ComputeNextElementOfLucasSequence Sequence P Q of
                         Inl err \<Rightarrow> False
                       | Inr x \<Rightarrow> d = e(''Sequence'' \<mapsto> PyList (Sequence @ [x])))
                  | _ \<Rightarrow> False))
      \<and> write_backs P Q Key (D(Key \<mapsto> d)) False rs)"

section \<open>MultiprocessingDemonstrationBenchmarking.py: the task\<close>

text \<open>
  \<^verbatim>\<open>
  def CPUHeavyFunction(NumbersToDraw, ID):
      NumbersInside = 0
      for i in range(NumbersToDraw):
          x = random.random()
          y = random.random()
          if y <= np.sqrt(1-x*x):
              NumbersInside +=1
      Pi = 4*NumbersInside/NumbersToDraw
      return (ID, Pi)
  \<close>
  The random numbers are a parameter: \<open>rnd ID i\<close> is the pair \<open>(x, y)\<close> drawn in pass \<open>i\<close> of the
  call with identifier \<open>ID\<close>. The square root of a negative number is \<open>nan\<close>, which
  compares false. The division is that of Python 3.
\<close>

definition CPUHeavyFunction ::
  "('id \<Rightarrow> int \<Rightarrow> real \<times> real) \<Rightarrow> int \<Rightarrow> 'id \<Rightarrow> py_error + ('id \<times> real)" where
  "CPUHeavyFunction rnd NumbersToDraw ID =
     (let NumbersInside =
            fold (\<lambda>i NumbersInside.
                    let (x, y) = rnd ID i
                    in if 0 \<le> 1 - x * x \<and> y \<le> sqrt (1 - x * x) then NumbersInside + 1
                       else NumbersInside)
                 (range_py 0 NumbersToDraw) (0::int)
      in if NumbersToDraw = 0 then Inl ZeroDivisionError
         else Inr (ID, 4 * real_of_int NumbersInside / real_of_int NumbersToDraw))"

text \<open>An equation without the square root, by which the function is evaluated.\<close>

lemma le_sqrt_iff: "0 \<le> z \<Longrightarrow> y \<le> sqrt z \<longleftrightarrow> y \<le> 0 \<or> y * y \<le> z"
proof (cases "y \<le> 0")
  case True
  assume "0 \<le> z"
  then have "0 \<le> sqrt z" by simp
  with True have "y \<le> sqrt z" by (rule order_trans)
  with True show ?thesis by simp
next
  case False
  assume z: "0 \<le> z"
  have "y \<le> sqrt z \<longleftrightarrow> y\<^sup>2 \<le> z"
    using False z
    by (metis less_eq_real_def linorder_not_le real_le_rsqrt real_sqrt_le_iff real_sqrt_abs
        abs_of_nonneg real_sqrt_pow2)
  with False show ?thesis by (simp add: power2_eq_square)
qed

lemma CPUHeavyFunction_code [code]:
  "CPUHeavyFunction rnd NumbersToDraw ID =
     (let NumbersInside =
            fold (\<lambda>i NumbersInside.
                    let (x, y) = rnd ID i
                    in if 0 \<le> 1 - x * x \<and> (y \<le> 0 \<or> y * y \<le> 1 - x * x) then NumbersInside + 1
                       else NumbersInside)
                 (range_py 0 NumbersToDraw) (0::int)
      in if NumbersToDraw = 0 then Inl ZeroDivisionError
         else Inr (ID, 4 * real_of_int NumbersInside / real_of_int NumbersToDraw))"
proof -
  have "(\<lambda>i (NumbersInside::int).
                    let (x, y) = rnd ID i
                    in if 0 \<le> 1 - x * x \<and> y \<le> sqrt (1 - x * x) then NumbersInside + 1
                       else NumbersInside)
      = (\<lambda>i NumbersInside.
                    let (x, y) = rnd ID i
                    in if 0 \<le> 1 - x * x \<and> (y \<le> 0 \<or> y * y \<le> 1 - x * x) then NumbersInside + 1
                       else NumbersInside)"
    by (intro ext) (auto simp: le_sqrt_iff split: prod.splits)
  then show ?thesis by (simp add: CPUHeavyFunction_def)
qed

section \<open>The pool of worker processes (direct submission)\<close>

text \<open>
  \<open>multiprocessing.Pool\<close>, as far as the sources use it. \<open>taskqueue\<close> holds the arguments of
  the submitted jobs in submission order, and the position of a job is the handle
  (\<open>AsyncResult\<close>) that \<open>apply_async\<close> returns for it. \<open>cache\<close> maps the handle of a finished
  job to its outcome: the value the function returned or the exception it raised.
  \<open>processes\<close> counts the worker processes that are alive.
\<close>

datatype pool_phase = RUN | CLOSE

record ('a, 'r) pool =
  processes :: nat
  phase :: pool_phase
  taskqueue :: "'a list"
  cache :: "nat \<rightharpoonup> (py_error + 'r)"

text \<open>\<open>multiprocessing.Pool(processes=n)\<close> raises \<open>ValueError\<close> unless \<open>n \<ge> 1\<close>.\<close>

definition Pool :: "int \<Rightarrow> py_error + ('a, 'r) pool" where
  "Pool n =
     (if n < 1 then Inl ValueError
      else Inr \<lparr>processes = nat n, phase = RUN, taskqueue = [], cache = Map.empty\<rparr>)"

text \<open>\<open>MyPool.apply_async(f, args)\<close>: refused once the pool is closed.\<close>

definition apply_async :: "('a, 'r) pool \<Rightarrow> 'a \<Rightarrow> py_error + (nat \<times> ('a, 'r) pool)" where
  "apply_async p args =
     (if phase p \<noteq> RUN then Inl ValueError
      else Inr (length (taskqueue p), p\<lparr>taskqueue := taskqueue p @ [args]\<rparr>))"

text \<open>The list comprehension \<^verbatim>\<open>[MyPool.apply_async(f, args=a) for a in ...]\<close>.\<close>

fun apply_async_all ::
  "('a, 'r) pool \<Rightarrow> 'a list \<Rightarrow> py_error + (nat list \<times> ('a, 'r) pool)" where
  "apply_async_all p [] = Inr ([], p)"
| "apply_async_all p (a # as) =
     (case apply_async p a of
        Inl e \<Rightarrow> Inl e
      | Inr (h, p') \<Rightarrow>
          (case apply_async_all p' as of
             Inl e \<Rightarrow> Inl e
           | Inr (hs, p'') \<Rightarrow> Inr (h # hs, p'')))"

text \<open>
  The workers of the pool take the jobs and finish them in an order that the program does
  not control. \<open>pending\<close> lists the jobs not yet finished, \<open>finish_job\<close> is a worker
  finishing job \<open>j\<close> with the function \<open>f\<close>, and \<open>pool_work\<close> runs the pool until no job is
  pending, the scheduler \<open>pick\<close> choosing at each moment which pending job finishes next.
  Every order of completion is the run of some \<open>pick\<close>.
\<close>

definition pending :: "('a, 'r) pool \<Rightarrow> nat list" where
  "pending p = filter (\<lambda>j. cache p j = None) [0..<length (taskqueue p)]"

definition finish_job :: "('a \<Rightarrow> py_error + 'r) \<Rightarrow> nat \<Rightarrow> ('a, 'r) pool \<Rightarrow> ('a, 'r) pool" where
  "finish_job f j p = p\<lparr>cache := (cache p)(j \<mapsto> f (taskqueue p ! j))\<rparr>"

lemma pending_finish_job:
  assumes "j \<in> set (pending p)"
  shows "length (pending (finish_job f j p)) < length (pending p)"
proof -
  have "pending (finish_job f j p) = filter (\<lambda>i. i \<noteq> j) (pending p)"
    by (auto simp: pending_def finish_job_def intro: filter_cong)
  moreover have "length (filter (\<lambda>i. i \<noteq> j) (pending p)) < length (pending p)"
    using assms by (intro length_filter_less [of j]) auto
  ultimately show ?thesis by simp
qed

function pool_work ::
  "('a \<Rightarrow> py_error + 'r) \<Rightarrow> (('a, 'r) pool \<Rightarrow> nat) \<Rightarrow> ('a, 'r) pool \<Rightarrow> ('a, 'r) pool" where
  "pool_work f pick p =
     (if pending p = [] then p
      else pool_work f pick (finish_job f (pending p ! (pick p mod length (pending p))) p))"
  by pat_completeness auto
termination
proof (relation "measure (\<lambda>(f, pick, p). length (pending p))")
  show "wf (measure (\<lambda>(f, pick, p). length (pending p)))" by simp
next
  fix f :: "'a \<Rightarrow> py_error + 'r" and pick :: "('a, 'r) pool \<Rightarrow> nat" and p :: "('a, 'r) pool"
  assume "pending p \<noteq> []"
  then have "pending p ! (pick p mod length (pending p)) \<in> set (pending p)"
    by simp
  then show "((f, pick, finish_job f (pending p ! (pick p mod length (pending p))) p), (f, pick, p))
      \<in> measure (\<lambda>(f, pick, p). length (pending p))"
    by (simp add: pending_finish_job)
qed

declare pool_work.simps [simp del]

text \<open>
  \<open>r.get()\<close> on the handle \<open>j\<close> blocks until job \<open>j\<close> has finished, then returns its value or
  raises its exception. On the pool after \<open>pool_work\<close>, a job that is not in the cache never
  finishes: \<open>None\<close> is a \<open>get\<close> that blocks forever. \<open>get_all\<close> is the list comprehension
  \<^verbatim>\<open>[r.get() for r in Results]\<close>, which stops at the first \<open>get\<close> that raises.
\<close>

fun get_all :: "('a, 'r) pool \<Rightarrow> nat list \<Rightarrow> (py_error + 'r list) option" where
  "get_all p [] = Some (Inr [])"
| "get_all p (j # js) =
     (case cache p j of
        None \<Rightarrow> None
      | Some (Inl e) \<Rightarrow> Some (Inl e)
      | Some (Inr v) \<Rightarrow>
          (case get_all p js of
             None \<Rightarrow> None
           | Some (Inl e) \<Rightarrow> Some (Inl e)
           | Some (Inr vs) \<Rightarrow> Some (Inr (v # vs))))"

text \<open>
  \<open>MyPool.close()\<close> and \<open>MyPool.join()\<close>. \<open>join\<close> raises \<open>ValueError\<close> on a pool that is still
  running; otherwise it returns when every worker process has exited.
\<close>

definition close :: "('a, 'r) pool \<Rightarrow> ('a, 'r) pool" where
  "close p = p\<lparr>phase := CLOSE\<rparr>"

definition join :: "('a, 'r) pool \<Rightarrow> py_error + ('a, 'r) pool" where
  "join p = (if phase p = RUN then Inl ValueError else Inr (p\<lparr>processes := 0\<rparr>))"

text \<open>
  The pattern shared by \<open>UsePool\<close> (lines 78 to 82), the cases of
  \<open>MultiprocessingDemonstrationPool.py\<close> and \<open>JobToPerformTasks\<close> (lines 49 to 53):
  \<^verbatim>\<open>
  MyPool = multiprocessing.Pool(processes=NumberOfWorkers)
  Results = [MyPool.apply_async(f, args=a) for a in tasks]
  Output = [r.get() for r in Results]
  MyPool.close()
  MyPool.join()
  \<close>
  The value is \<open>Output\<close> with the pool as \<open>join\<close> leaves it. The jobs run while the parent
  submits and waits; their outcomes depend on their arguments only, so the model lets the
  pool do its work between the two list comprehensions.
\<close>

definition direct_submit ::
  "('a \<Rightarrow> py_error + 'r) \<Rightarrow> (('a, 'r) pool \<Rightarrow> nat) \<Rightarrow> int \<Rightarrow> 'a list
     \<Rightarrow> (py_error + ('r list \<times> ('a, 'r) pool)) option" where
  "direct_submit f pick NumberOfWorkers tasks =
     (case Pool NumberOfWorkers of
        Inl e \<Rightarrow> Some (Inl e)
      | Inr MyPool \<Rightarrow>
          (case apply_async_all MyPool tasks of
             Inl e \<Rightarrow> Some (Inl e)
           | Inr (Results, MyPool) \<Rightarrow>
               (case get_all (pool_work f pick MyPool) Results of
                  None \<Rightarrow> None
                | Some (Inl e) \<Rightarrow> Some (Inl e)
                | Some (Inr Output) \<Rightarrow>
                    (case join (close (pool_work f pick MyPool)) of
                       Inl e \<Rightarrow> Some (Inl e)
                     | Inr MyPool \<Rightarrow> Some (Inr (Output, MyPool))))))"

text \<open>
  \<open>UsePool(NumberOfWorkers, NumberOfTasks, WeightOfComputation)\<close>. The source returns the
  elapsed time; the model returns the list \<open>Output\<close> that it builds.
\<close>

definition UsePool ::
  "(int \<Rightarrow> int \<Rightarrow> real \<times> real) \<Rightarrow> ((int \<times> int, int \<times> real) pool \<Rightarrow> nat) \<Rightarrow> int \<Rightarrow> int \<Rightarrow> int
     \<Rightarrow> (py_error + (int \<times> real) list) option" where
  "UsePool rnd pick NumberOfWorkers NumberOfTasks WeightOfComputation =
     map_option (map_sum id fst)
       (direct_submit (\<lambda>(n, i). CPUHeavyFunction rnd n i) pick NumberOfWorkers
          (map (\<lambda>i. (WeightOfComputation, i)) (range_py 0 NumberOfTasks)))"

text \<open>
  What a list comprehension over calls that may raise evaluates to: the list of the values,
  or the exception of the first call that raises.
\<close>

fun first_error :: "('e + 'r) list \<Rightarrow> 'e + 'r list" where
  "first_error [] = Inr []"
| "first_error (Inl e # xs) = Inl e"
| "first_error (Inr v # xs) = (case first_error xs of Inl e \<Rightarrow> Inl e | Inr vs \<Rightarrow> Inr (v # vs))"

section \<open>MultiprocessingDemonstrationNestingProcessAndPool.py: the nested worker\<close>

text \<open>
  \<^verbatim>\<open>
  def SumRandomNumbers(WeightedNumbersToAdd, ProcessID, SubTaskNumber):
      Sum = 0.0
      for i in range(WeightedNumbersToAdd):
          Sum += random.random()
      return Sum
  \<close>
  (the \<open>print\<close> calls are left out). \<open>rnd a i\<close> is the number drawn in pass \<open>i\<close> of the call
  with the arguments \<open>a\<close>. The name carries a suffix because
  \<open>MultiprocessingDemonstrationProcess.py\<close> has a function of the same name.
\<close>

definition SumRandomNumbers_sub ::
  "(int \<times> nat \<times> int \<Rightarrow> int \<Rightarrow> real) \<Rightarrow> int \<Rightarrow> nat \<Rightarrow> int \<Rightarrow> real" where
  "SumRandomNumbers_sub rnd WeightedNumbersToAdd ProcessID SubTaskNumber =
     fold (\<lambda>i Sum. Sum + rnd (WeightedNumbersToAdd, ProcessID, SubTaskNumber) i)
       (range_py 0 WeightedNumbersToAdd) 0"

text \<open>
  One pass through the \<open>try\<close> block of \<open>JobToPerformTasks\<close>, between \<open>InputQueue.get\<close> and
  \<open>OutputQueue.put\<close>:
  \<^verbatim>\<open>
  RandomWeight = random.randint(1,3)
  ProcessID = multiprocessing.current_process().name
  WeightedNumbersToAdd = RandomWeight*int(NumbersToAdd)
  MyPool = multiprocessing.Pool(processes=NumberOfPoolWorkers)
  Result = [MyPool.apply_async(SumRandomNumbers,
      args=[WeightedNumbersToAdd,ProcessID,SubtaskNumber+1])
      for SubtaskNumber in range(NumberOfSubtasksInOneTask)]
  ListOfSums = [r.get() for r in Result]
  MyPool.close()
  MyPool.join()
  Sum = int(np.sum(ListOfSums)/(0.5*NumberOfSubtasksInOneTask*RandomWeight))
  OutputQueue.put((NumbersToAdd, Sum))
  \<close>
  \<open>draw NumbersToAdd\<close> is the weight that \<open>random.randint(1,3)\<close> returns for the task,
  \<open>pick NumbersToAdd\<close> the scheduler of the inner pool, and \<open>ProcessID\<close> the number of the
  outer worker; \<open>Sum'\<close> stands for the variable \<open>Sum\<close>. The value is the pair put into
  \<open>OutputQueue\<close>, with the inner pool as the pass leaves it.
\<close>

definition JobToPerformTasks_task ::
  "(real \<Rightarrow> int) \<Rightarrow> (int \<times> nat \<times> int \<Rightarrow> int \<Rightarrow> real)
     \<Rightarrow> (real \<Rightarrow> (int \<times> nat \<times> int, real) pool \<Rightarrow> nat) \<Rightarrow> int \<Rightarrow> int \<Rightarrow> nat \<Rightarrow> real
     \<Rightarrow> (py_error + ((real \<times> int) \<times> (int \<times> nat \<times> int, real) pool)) option" where
  "JobToPerformTasks_task draw rnd pick NumberOfPoolWorkers NumberOfSubtasksInOneTask
       ProcessID NumbersToAdd =
     (let RandomWeight = draw NumbersToAdd;
          WeightedNumbersToAdd = RandomWeight * py_int NumbersToAdd
      in case direct_submit (\<lambda>(n, p, k). Inr (SumRandomNumbers_sub rnd n p k))
                (pick NumbersToAdd) NumberOfPoolWorkers
                (map (\<lambda>SubtaskNumber. (WeightedNumbersToAdd, ProcessID, SubtaskNumber + 1))
                   (range_py 0 NumberOfSubtasksInOneTask)) of
           None \<Rightarrow> None
         | Some (Inl e) \<Rightarrow> Some (Inl e)
         | Some (Inr (ListOfSums, MyPool)) \<Rightarrow>
             (case JobToPerformTasks_Sum ListOfSums NumberOfSubtasksInOneTask RandomWeight of
                Inl e \<Rightarrow> Some (Inl e)
              | Inr Sum' \<Rightarrow> Some (Inr ((NumbersToAdd, Sum'), MyPool))))"

text \<open>
  \<open>JobToPerformTasks\<close> is the worker loop around this computation; the inner pool is local
  to the pass and is not part of what the worker holds afterwards.
\<close>

definition JobToPerformTasks_body ::
  "(real \<Rightarrow> int) \<Rightarrow> (int \<times> nat \<times> int \<Rightarrow> int \<Rightarrow> real)
     \<Rightarrow> (real \<Rightarrow> (int \<times> nat \<times> int, real) pool \<Rightarrow> nat) \<Rightarrow> int \<Rightarrow> int \<Rightarrow> nat \<Rightarrow> real
     \<Rightarrow> (py_error + (real \<times> int)) option" where
  "JobToPerformTasks_body draw rnd pick NumberOfPoolWorkers NumberOfSubtasksInOneTask w
       NumbersToAdd =
     map_option (map_sum id fst)
       (JobToPerformTasks_task draw rnd pick NumberOfPoolWorkers NumberOfSubtasksInOneTask
          w NumbersToAdd)"

section \<open>The shared queues (Process mode)\<close>

text \<open>
  The three worker functions of the sources, \<open>UsingQueues\<close>,
  \<open>JobToSumRandomNumbersRepeatedly\<close> and \<open>JobToPerformTasks\<close>, are the same loop around
  different computations:
  \<^verbatim>\<open>
  while True:
      try:
          x = InputQueue.get(block=False)
          r = ... computed from x ...
          OutputQueue.put(r)
      except Empty:
          break
  \<close>
  A worker process is at one of these points: about to call \<open>InputQueue.get\<close> (\<open>AtGet\<close>);
  holding the item \<open>x\<close> it has taken, about to run the computation on it (\<open>AtCompute x\<close>);
  holding the computed \<open>r\<close>, about to call \<open>OutputQueue.put(r)\<close> (\<open>AtPut r\<close>); returned after
  catching \<open>Empty\<close> (\<open>Returned\<close>); ended by an exception \<open>e\<close>, which the loop does not catch
  (\<open>Raised e\<close>); or inside a computation that never returns (\<open>Hung\<close>).
\<close>

datatype ('a, 'r) process = AtGet | AtCompute 'a | AtPut 'r | Returned | Raised py_error | Hung

text \<open>
  The parent process fills \<open>InputQueue\<close>, starts the workers and collects the results with
  \<^verbatim>\<open>[OutputQueue.get() for i in range(n)]\<close> into \<open>Output\<close>. Each operation on a queue is one
  step (\<open>multiprocessing.Queue\<close> locks its pipe), and the processes interleave arbitrarily.
  \<open>Trace\<close> records, in the order in which they happen, the queue operations and the calls of
  the computation: worker \<open>w\<close> took \<open>x\<close> (\<open>Get w x\<close>), caught \<open>Empty\<close> (\<open>GetEmpty w\<close>), ran
  the computation on \<open>x\<close> (\<open>Compute w x\<close>), put \<open>r\<close> (\<open>Put w r\<close>), and the parent collected
  \<open>r\<close> (\<open>Collected r\<close>).
\<close>

datatype actor = Parent | Child nat

datatype ('a, 'r) event = Get nat 'a | GetEmpty nat | Compute nat 'a | Put nat 'r | Collected 'r

record ('a, 'r) system =
  InputQueue :: "'a list"
  OutputQueue :: "'r list"
  Workers :: "('a, 'r) process list"
  Output :: "'r list"
  Trace :: "('a, 'r) event list"

text \<open>
  \<open>InputQueue.get(block=False)\<close>. In \<open>multiprocessing/queues.py\<close> the call is
  \<^verbatim>\<open>
  if not self._rlock.acquire(block, timeout):
      raise Empty
  try:
      ...
      elif not self._poll():
          raise Empty
      res = self._recv_bytes()
      self._sem.release()
  finally:
      self._rlock.release()
  \<close>
  so it raises \<open>Empty\<close> when the queue holds no item, and also when another process holds
  the read lock or the items that were put have not yet reached the pipe. \<open>available\<close>
  tells whether the call finds the lock free and an item in the pipe; the value is the item
  taken with the rest of the queue.
\<close>

definition get_nowait :: "bool \<Rightarrow> 'a list \<Rightarrow> py_error + 'a \<times> 'a list" where
  "get_nowait available q =
     (case q of
        [] \<Rightarrow> Inl Empty
      | x # q' \<Rightarrow> if available then Inr (x, q') else Inl Empty)"

text \<open>
  Where a worker stands after its computation: the computation returned \<open>r\<close>, raised \<open>e\<close>,
  or did not return (\<open>None\<close>).
\<close>

fun computed :: "(py_error + 'r) option \<Rightarrow> ('a, 'r) process" where
  "computed None = Hung"
| "computed (Some (Inl e)) = Raised e"
| "computed (Some (Inr r)) = AtPut r"

text \<open>
  One step of worker \<open>w\<close>. At \<open>AtGet\<close> it calls \<open>InputQueue.get(block=False)\<close>: it takes the
  head of \<open>InputQueue\<close>, or catches \<open>Empty\<close> and returns (\<open>ready s\<close> tells whether the call
  made in the state \<open>s\<close> finds the lock free and an item in the pipe). At \<open>AtCompute x\<close> it
  runs the computation \<open>body w\<close> on \<open>x\<close>; at \<open>AtPut r\<close> it appends \<open>r\<close> to \<open>OutputQueue\<close> and is
  back at the head of the loop.
\<close>

definition worker_step ::
  "(nat \<Rightarrow> 'a \<Rightarrow> (py_error + 'r) option) \<Rightarrow> (('a, 'r) system \<Rightarrow> bool) \<Rightarrow> nat
     \<Rightarrow> ('a, 'r) system \<Rightarrow> ('a, 'r) system" where
  "worker_step body ready w s =
     (case Workers s ! w of
        AtGet \<Rightarrow>
          (case get_nowait (ready s) (InputQueue s) of
             Inl e \<Rightarrow>
               if e = Empty
               then s\<lparr>Workers := (Workers s)[w := Returned], Trace := Trace s @ [GetEmpty w]\<rparr>
               else s\<lparr>Workers := (Workers s)[w := Raised e]\<rparr>
           | Inr (x, q) \<Rightarrow>
               s\<lparr>InputQueue := q, Workers := (Workers s)[w := AtCompute x],
                 Trace := Trace s @ [Get w x]\<rparr>)
      | AtCompute x \<Rightarrow>
          s\<lparr>Workers := (Workers s)[w := computed (body w x)], Trace := Trace s @ [Compute w x]\<rparr>
      | AtPut r \<Rightarrow>
          s\<lparr>OutputQueue := OutputQueue s @ [r], Workers := (Workers s)[w := AtGet],
            Trace := Trace s @ [Put w r]\<rparr>
      | Returned \<Rightarrow> s
      | Raised e \<Rightarrow> s
      | Hung \<Rightarrow> s)"

text \<open>One \<open>OutputQueue.get()\<close> of the parent; it blocks while the queue is empty.\<close>

definition parent_step :: "('a, 'r) system \<Rightarrow> ('a, 'r) system" where
  "parent_step s =
     (case OutputQueue s of
        [] \<Rightarrow> s
      | r # q \<Rightarrow> s\<lparr>OutputQueue := q, Output := Output s @ [r], Trace := Trace s @ [Collected r]\<rparr>)"

fun step ::
  "(nat \<Rightarrow> 'a \<Rightarrow> (py_error + 'r) option) \<Rightarrow> (('a, 'r) system \<Rightarrow> bool) \<Rightarrow> actor
     \<Rightarrow> ('a, 'r) system \<Rightarrow> ('a, 'r) system" where
  "step body ready Parent s = parent_step s"
| "step body ready (Child w) s = worker_step body ready w s"

text \<open>
  The processes that can take a step: the parent while it has collected fewer than \<open>n\<close>
  results and \<open>OutputQueue\<close> is not empty, and every worker that is in its loop.
\<close>

fun running :: "('a, 'r) process \<Rightarrow> bool" where
  "running AtGet = True"
| "running (AtCompute x) = True"
| "running (AtPut r) = True"
| "running p = False"

definition enabled :: "nat \<Rightarrow> ('a, 'r) system \<Rightarrow> actor list" where
  "enabled n s =
     (if length (Output s) < n \<and> OutputQueue s \<noteq> [] then [Parent] else [])
     @ map Child (filter (\<lambda>w. running (Workers s ! w)) [0..<length (Workers s)])"

text \<open>
  A measure of the work left: every step of an enabled process lowers it, so every
  execution is finite.
\<close>

fun weight :: "('a, 'r) process \<Rightarrow> nat" where
  "weight AtGet = 1"
| "weight (AtCompute x) = 4"
| "weight (AtPut r) = 3"
| "weight p = 0"

definition potential :: "('a, 'r) system \<Rightarrow> nat" where
  "potential s = 4 * length (InputQueue s) + sum_list (map weight (Workers s)) + length (OutputQueue s)"

lemma sum_list_update_weight:
  "w < length ps \<Longrightarrow>
   sum_list (map weight (ps[w := p])) + weight (ps ! w) = sum_list (map weight ps) + weight p"
proof (induction ps arbitrary: w)
  case Nil
  then show ?case by simp
next
  case (Cons a ps)
  then show ?case by (cases w) auto
qed

lemma weight_computed: "weight (computed c) \<le> 3"
  by (cases c rule: computed.cases) auto

lemma get_nowait_cases:
  obtains "get_nowait available q = Inl Empty" and "q = [] \<or> \<not> available"
  | x q' where "get_nowait available q = Inr (x, q')" and "q = x # q'" and "available"
  by (cases q) (auto simp: get_nowait_def)

lemma potential_worker_step:
  assumes "w < length (Workers s)" and "running (Workers s ! w)"
  shows "potential (worker_step body ready w s) < potential s"
proof (cases "Workers s ! w")
  case AtGet
  show ?thesis
  proof (cases rule: get_nowait_cases [of "ready s" "InputQueue s"])
    case 1
    with AtGet sum_list_update_weight [OF assms(1), of Returned] show ?thesis
      by (simp add: worker_step_def potential_def)
  next
    case (2 x q)
    with AtGet sum_list_update_weight [OF assms(1), of "AtCompute x"] show ?thesis
      by (simp add: worker_step_def potential_def)
  qed
next
  case (AtCompute x)
  have "sum_list (map weight ((Workers s)[w := computed (body w x)])) + 4
      = sum_list (map weight (Workers s)) + weight (computed (body w x) :: ('a, 'b) process)"
    using sum_list_update_weight [OF assms(1), of "computed (body w x)"] AtCompute by simp
  moreover have "weight (computed (body w x) :: ('a, 'b) process) \<le> 3"
    by (rule weight_computed)
  ultimately have "sum_list (map weight ((Workers s)[w := computed (body w x)]))
      < sum_list (map weight (Workers s))"
    by linarith
  with AtCompute show ?thesis
    by (simp add: worker_step_def potential_def)
next
  case (AtPut r)
  with sum_list_update_weight [OF assms(1), of AtGet] show ?thesis
    by (simp add: worker_step_def potential_def)
qed (use assms(2) in auto)

lemma potential_step:
  assumes "a \<in> set (enabled n s)"
  shows "potential (step body ready a s) < potential s"
proof (cases a)
  case Parent
  with assms have "OutputQueue s \<noteq> []" by (auto simp: enabled_def split: if_splits)
  with Parent show ?thesis
    by (cases "OutputQueue s") (auto simp: parent_step_def potential_def)
next
  case (Child w)
  with assms have "w < length (Workers s)" "running (Workers s ! w)"
    by (auto simp: enabled_def split: if_splits)
  with Child show ?thesis by (simp add: potential_worker_step)
qed

text \<open>
  The execution of the system to its end. The scheduler \<open>pick\<close> chooses, in every state,
  which of the enabled processes takes the next step, and \<open>ready\<close> tells, in every state,
  whether a \<open>get(block=False)\<close> made there finds the lock free and an item in the pipe; every
  interleaving is the run of some \<open>pick\<close> and \<open>ready\<close> (every step extends \<open>Trace\<close>, so the
  states of an execution are all different). \<open>run_steps k\<close> is the state after the first
  \<open>k\<close> steps of the same execution.
\<close>

function run ::
  "(nat \<Rightarrow> 'a \<Rightarrow> (py_error + 'r) option) \<Rightarrow> nat \<Rightarrow> (('a, 'r) system \<Rightarrow> nat)
     \<Rightarrow> (('a, 'r) system \<Rightarrow> bool) \<Rightarrow> ('a, 'r) system \<Rightarrow> ('a, 'r) system" where
  "run body n pick ready s =
     (if enabled n s = [] then s
      else run body n pick ready
             (step body ready (enabled n s ! (pick s mod length (enabled n s))) s))"
  by pat_completeness auto
termination
proof (relation "measure (\<lambda>(body, n, pick, ready, s). potential s)")
  show "wf (measure (\<lambda>(body, n, pick, ready, s). potential s))" by simp
next
  fix body :: "nat \<Rightarrow> 'a \<Rightarrow> (py_error + 'r) option" and n :: nat
    and pick :: "('a, 'r) system \<Rightarrow> nat" and ready :: "('a, 'r) system \<Rightarrow> bool"
    and s :: "('a, 'r) system"
  assume "enabled n s \<noteq> []"
  then have "enabled n s ! (pick s mod length (enabled n s)) \<in> set (enabled n s)"
    by simp
  then show "((body, n, pick, ready,
          step body ready (enabled n s ! (pick s mod length (enabled n s))) s),
        (body, n, pick, ready, s)) \<in> measure (\<lambda>(body, n, pick, ready, s). potential s)"
    by (simp add: potential_step)
qed

declare run.simps [simp del]

fun run_steps ::
  "nat \<Rightarrow> (nat \<Rightarrow> 'a \<Rightarrow> (py_error + 'r) option) \<Rightarrow> nat \<Rightarrow> (('a, 'r) system \<Rightarrow> nat)
     \<Rightarrow> (('a, 'r) system \<Rightarrow> bool) \<Rightarrow> ('a, 'r) system \<Rightarrow> ('a, 'r) system" where
  "run_steps 0 body n pick ready s = s"
| "run_steps (Suc k) body n pick ready s =
     (if enabled n s = [] then s
      else run_steps k body n pick ready
             (step body ready (enabled n s ! (pick s mod length (enabled n s))) s))"

text \<open>
  The state in which the parent starts the workers: the tasks are in \<open>InputQueue\<close> and each of
  the \<open>W\<close> workers is at the head of its loop.
\<close>

definition start :: "'a list \<Rightarrow> nat \<Rightarrow> ('a, 'r) system" where
  "start tasks W =
     \<lparr>InputQueue = tasks, OutputQueue = [], Workers = replicate W AtGet, Output = [], Trace = []\<rparr>"

text \<open>
  The value of \<^verbatim>\<open>[OutputQueue.get() for i in range(n)]\<close> at the end of the execution: the
  collected list when it has \<open>n\<close> elements; otherwise the parent is inside a \<open>get\<close> on a queue
  into which nothing will be put any more, and waits forever (\<open>None\<close>).
\<close>

definition drained :: "nat \<Rightarrow> ('a, 'r) system \<Rightarrow> 'r list option" where
  "drained n s = (if length (Output s) = n then Some (Output s) else None)"

text \<open>
  What a trace tells: the items taken from \<open>InputQueue\<close> with the worker that took each
  (\<open>gets\<close>), the items on which the computation was run with the worker that ran it
  (\<open>computes\<close>), the results put into \<open>OutputQueue\<close> with the worker that put each (\<open>puts\<close>),
  the workers that caught \<open>Empty\<close> (\<open>empties\<close>) and the results the parent collected
  (\<open>collects\<close>), each in the order of the trace.
\<close>

fun gets :: "('a, 'r) event list \<Rightarrow> (nat \<times> 'a) list" where
  "gets [] = []"
| "gets (Get w x # es) = (w, x) # gets es"
| "gets (e # es) = gets es"

fun computes :: "('a, 'r) event list \<Rightarrow> (nat \<times> 'a) list" where
  "computes [] = []"
| "computes (Compute w x # es) = (w, x) # computes es"
| "computes (e # es) = computes es"

fun puts :: "('a, 'r) event list \<Rightarrow> (nat \<times> 'r) list" where
  "puts [] = []"
| "puts (Put w r # es) = (w, r) # puts es"
| "puts (e # es) = puts es"

fun empties :: "('a, 'r) event list \<Rightarrow> nat list" where
  "empties [] = []"
| "empties (GetEmpty w # es) = w # empties es"
| "empties (e # es) = empties es"

fun collects :: "('a, 'r) event list \<Rightarrow> 'r list" where
  "collects [] = []"
| "collects (Collected r # es) = r # collects es"
| "collects (e # es) = collects es"

text \<open>
  The items that workers hold between \<open>get\<close> and computation (\<open>taken i ps\<close> numbers the
  workers \<open>ps\<close> from \<open>i\<close>), the results that workers hold between computation and \<open>put\<close>
  (\<open>holding\<close>), and the results of the computations that returned a value, for a list of
  items with the workers that took them (\<open>successes\<close>).
\<close>

fun taken :: "nat \<Rightarrow> ('a, 'r) process list \<Rightarrow> (nat \<times> 'a) list" where
  "taken i [] = []"
| "taken i (AtCompute x # ps) = (i, x) # taken (Suc i) ps"
| "taken i (p # ps) = taken (Suc i) ps"

fun holding :: "nat \<Rightarrow> ('a, 'r) process list \<Rightarrow> (nat \<times> 'r) list" where
  "holding i [] = []"
| "holding i (AtPut r # ps) = (i, r) # holding (Suc i) ps"
| "holding i (p # ps) = holding (Suc i) ps"

fun successes ::
  "(nat \<Rightarrow> 'a \<Rightarrow> (py_error + 'r) option) \<Rightarrow> (nat \<times> 'a) list \<Rightarrow> (nat \<times> 'r) list" where
  "successes body [] = []"
| "successes body ((w, x) # gs) =
     (case body w x of
        Some (Inr r) \<Rightarrow> (w, r) # successes body gs
      | Some (Inl e) \<Rightarrow> successes body gs
      | None \<Rightarrow> successes body gs)"

section \<open>MultiprocessingDemonstrationBenchmarking.py: Process mode\<close>

text \<open>
  \<^verbatim>\<open>
  def UsingQueues(InputQueue, OutputQueue, FunctionToEvaluate):
      while True:
          try:
              TupleOfArguments = InputQueue.get(block=False)
              ReturnedTuple = FunctionToEvaluate(TupleOfArguments[0],TupleOfArguments[1])
              OutputQueue.put(ReturnedTuple)
          except Empty:
              break
  \<close>
  The computation between \<open>get\<close> and \<open>put\<close>, for the worker \<open>w\<close>:
\<close>

definition UsingQueues_task ::
  "('x \<Rightarrow> 'y \<Rightarrow> py_error + 'r) \<Rightarrow> nat \<Rightarrow> 'x \<times> 'y \<Rightarrow> (py_error + 'r) option" where
  "UsingQueues_task FunctionToEvaluate w TupleOfArguments =
     Some (FunctionToEvaluate (fst TupleOfArguments) (snd TupleOfArguments))"

text \<open>
  \<^verbatim>\<open>
  def UseProcess(NumberOfWorkers, NumberOfTasks, WeightOfComputation):
      InputQueue = multiprocessing.Queue()
      for i in range(NumberOfTasks):
          InputQueue.put((WeightOfComputation,i))
      OutputQueue = multiprocessing.Queue()
      MyProcesses = [multiprocessing.Process(target=UsingQueues,
          args=(InputQueue,OutputQueue,CPUHeavyFunction)) for i in range(NumberOfWorkers)]
      for p in MyProcesses:
          p.start()
      Output = [OutputQueue.get() for i in range(NumberOfTasks)]
      for p in MyProcesses:
          p.join()
  \<close>
  The source returns the elapsed time; the model returns \<open>Output\<close>, or \<open>None\<close> when the list
  comprehension never completes. \<open>UseProcess_system\<close> is the state in which the execution
  ends.
\<close>

definition UseProcess_system ::
  "(int \<Rightarrow> int \<Rightarrow> real \<times> real) \<Rightarrow> ((int \<times> int, int \<times> real) system \<Rightarrow> nat)
     \<Rightarrow> ((int \<times> int, int \<times> real) system \<Rightarrow> bool) \<Rightarrow> int \<Rightarrow> int \<Rightarrow> int
     \<Rightarrow> (int \<times> int, int \<times> real) system" where
  "UseProcess_system rnd pick ready NumberOfWorkers NumberOfTasks WeightOfComputation =
     run (UsingQueues_task (CPUHeavyFunction rnd)) (nat NumberOfTasks) pick ready
       (start (map (\<lambda>i. (WeightOfComputation, i)) (range_py 0 NumberOfTasks))
          (nat NumberOfWorkers))"

definition UseProcess ::
  "(int \<Rightarrow> int \<Rightarrow> real \<times> real) \<Rightarrow> ((int \<times> int, int \<times> real) system \<Rightarrow> nat)
     \<Rightarrow> ((int \<times> int, int \<times> real) system \<Rightarrow> bool) \<Rightarrow> int \<Rightarrow> int \<Rightarrow> int
     \<Rightarrow> (int \<times> real) list option" where
  "UseProcess rnd pick ready NumberOfWorkers NumberOfTasks WeightOfComputation =
     drained (nat NumberOfTasks)
       (UseProcess_system rnd pick ready NumberOfWorkers NumberOfTasks WeightOfComputation)"

section \<open>MultiprocessingDemonstrationProcess.py\<close>

text \<open>The module constant \<open>N = 60000000\<close>.\<close>

definition Process_N :: int where
  "Process_N = 60000000"

text \<open>
  \<^verbatim>\<open>
  def SumRandomNumbers(NumberOfValuesToAdd, ID, OutputQueue):
      Sum = 0
      for i in range(int(NumberOfValuesToAdd)):
          Sum += random.random()
      OutputQueue.put((ID, Sum))
  \<close>
  \<open>rnd ID i\<close> is the number drawn in pass \<open>i\<close> of the call with identifier \<open>ID\<close>. The value
  is the pair that the function puts into \<open>OutputQueue\<close>.
\<close>

definition SumRandomNumbers :: "('id \<Rightarrow> int \<Rightarrow> real) \<Rightarrow> real \<Rightarrow> 'id \<Rightarrow> 'id \<times> real" where
  "SumRandomNumbers rnd NumberOfValuesToAdd ID =
     (ID, fold (\<lambda>i Sum. Sum + rnd ID i) (range_py 0 (py_int NumberOfValuesToAdd)) 0)"

text \<open>
  \<^verbatim>\<open>
  def JobToSumRandomNumbersRepeatedly(InputQueue, JobID, OutputQueue):
      while True:
          try:
              InputValue = InputQueue.get(block=False)
              NumberOfValuesToAdd = InputValue*N/25
              SumRandomNumbers(NumberOfValuesToAdd, (JobID, int(InputValue)), OutputQueue)
          except Empty:
              break
  \<close>
  The computation between \<open>get\<close> and \<open>put\<close>:
\<close>

definition JobToSumRandomNumbersRepeatedly_task ::
  "(int \<times> int \<Rightarrow> int \<Rightarrow> real) \<Rightarrow> int \<Rightarrow> real \<Rightarrow> (py_error + ((int \<times> int) \<times> real)) option" where
  "JobToSumRandomNumbersRepeatedly_task rnd JobID InputValue =
     (let NumberOfValuesToAdd = InputValue * real_of_int Process_N / 25
      in Some (Inr (SumRandomNumbers rnd NumberOfValuesToAdd (JobID, py_int InputValue))))"

text \<open>
  Case 4 of the main program, for the input values \<open>InputValues\<close> and \<open>NumberOfProcesses\<close>
  workers, which have the job identifiers \<open>1, ..., NumberOfProcesses\<close>:
  \<^verbatim>\<open>
  for i in np.linspace(1, 25, 25):
      QueueOfInputValues.put(i)
  NumberOfTasks = QueueOfInputValues.qsize()
  QueueOfResults = multiprocessing.Queue()
  Jobs = [multiprocessing.Process(target=JobToSumRandomNumbersRepeatedly,
      args=(QueueOfInputValues, i, QueueOfResults)) for i in range(1,NumberOfProcesses+1)]
  for j in Jobs:
      j.start()
  Results = sorted([QueueOfResults.get() for p in range(1,NumberOfTasks+1)])
  \<close>
  \<open>Case4_system\<close> is the state in which the execution ends, \<open>Case4\<close> the list \<open>Results\<close>.
\<close>

definition Case4_system ::
  "(int \<times> int \<Rightarrow> int \<Rightarrow> real) \<Rightarrow> ((real, (int \<times> int) \<times> real) system \<Rightarrow> nat)
     \<Rightarrow> ((real, (int \<times> int) \<times> real) system \<Rightarrow> bool) \<Rightarrow> int \<Rightarrow> real list
     \<Rightarrow> (real, (int \<times> int) \<times> real) system" where
  "Case4_system rnd pick ready NumberOfProcesses InputValues =
     run (\<lambda>w. JobToSumRandomNumbersRepeatedly_task rnd (int w + 1)) (length InputValues)
       pick ready
       (start InputValues (nat NumberOfProcesses))"

definition Case4 ::
  "(int \<times> int \<Rightarrow> int \<Rightarrow> real) \<Rightarrow> ((real, (int \<times> int) \<times> real) system \<Rightarrow> nat)
     \<Rightarrow> ((real, (int \<times> int) \<times> real) system \<Rightarrow> bool) \<Rightarrow> int \<Rightarrow> real list
     \<Rightarrow> ((int \<times> int) \<times> real) list option" where
  "Case4 rnd pick ready NumberOfProcesses InputValues =
     map_option sort
       (drained (length InputValues)
          (Case4_system rnd pick ready NumberOfProcesses InputValues))"

section \<open>The invariant of the executions\<close>

text \<open>
  What holds in every state of an execution that starts with the tasks \<open>tasks\<close> in
  \<open>InputQueue\<close> and \<open>W\<close> workers, the parent collecting \<open>n\<close> results: the items taken so
  far and the items still queued make up \<open>tasks\<close>, in order; the results put so far are the
  collected ones followed by the queued ones, in order; the computation was run once on
  every item taken, except those that a worker holds and is about to run it on; the results
  put and the results held are those of the computations run that returned a value; a
  worker has caught \<open>Empty\<close> once if it has returned and never otherwise; and a worker ends
  otherwise only on an item it has taken whose computation returns no value.
\<close>

definition consistent ::
  "(nat \<Rightarrow> 'a \<Rightarrow> (py_error + 'r) option) \<Rightarrow> nat \<Rightarrow> 'a list \<Rightarrow> nat \<Rightarrow> ('a, 'r) system \<Rightarrow> bool" where
  "consistent body n tasks W s \<longleftrightarrow>
     length (Workers s) = W
   \<and> map snd (gets (Trace s)) @ InputQueue s = tasks
   \<and> list_all (\<lambda>w. w < W) (map fst (gets (Trace s)))
   \<and> map snd (puts (Trace s)) = Output s @ OutputQueue s
   \<and> collects (Trace s) = Output s
   \<and> length (Output s) \<le> n
   \<and> mset (computes (Trace s)) + mset (taken 0 (Workers s)) = mset (gets (Trace s))
   \<and> mset (puts (Trace s)) + mset (holding 0 (Workers s))
       = mset (successes body (computes (Trace s)))
   \<and> (\<forall>w<W. count_list (empties (Trace s)) w = (if Workers s ! w = Returned then 1 else 0))
   \<and> (\<forall>w<W. \<not> running (Workers s ! w) \<and> Workers s ! w \<noteq> Returned \<longrightarrow>
          (\<exists>x. (w, x) \<in> set (gets (Trace s)) \<and> (\<forall>r. body w x \<noteq> Some (Inr r))))"

section \<open>Properties of the computations of pi\<close>

lemma range_py_nat: "range_py 0 (int n) = map int [0..<n]"
proof (induction n)
  case 0
  show ?case by (simp add: range_py_def)
next
  case (Suc n)
  have "[0..int n] = [0..int n - 1] @ [int n]"
    by (rule upto_rec2) simp
  with Suc show ?case by (simp add: range_py_def)
qed

lemma range_py_0: "0 \<le> N \<Longrightarrow> range_py 0 N = map int [0..<nat N]"
  using range_py_nat [of "nat N"] by simp

lemma fold_add_sum_list: "fold (\<lambda>n (s::real). s + f n) xs a = a + sum_list (map f xs)"
  by (induction xs arbitrary: a) (auto simp: algebra_simps)

lemma ComputePi_sum:
  "0 \<le> N \<Longrightarrow> ComputePi N ID = (ID, \<Sum>n = 0..<nat N. 4 * (- 1) ^ n / (2 * real n + 1))"
  by (simp add: ComputePi_def range_py_0 fold_add_sum_list comp_def
      interv_sum_list_conv_sum_set_nat)

lemma linspace_range:
  "1 \<le> N \<Longrightarrow> linspace 0 (real_of_int N - 1) N = Inr (map real [0..<nat N])"
  by (simp add: linspace_def range_py_0 comp_def)

lemma np_power_int: "np_power (- 1) (real n) = Some ((- 1) ^ n)"
  by (simp add: np_power_def)

lemma np_sum_Some: "np_sum (map (\<lambda>x. Some (f x)) xs) = Some (sum_list (map f xs))"
  by (induction xs) auto

lemma np_divide_odd: "np_divide p (2 * real n + 1) = Some (p / (2 * real n + 1))"
proof -
  have "2 * real n + 1 \<noteq> 0"
    by (metis add_nonneg_pos less_numeral_extra(1) mult_nonneg_nonneg of_nat_0_le_iff
        order_less_irrefl zero_le_numeral)
  then show ?thesis by (simp add: np_divide_def)
qed

lemma ComputePiVectorised_sum:
  assumes "1 \<le> N"
  shows "ComputePiVectorised N ID =
           Inr (ID, Some (\<Sum>n = 0..<nat N. 4 * (- 1) ^ n / (2 * real n + 1)))"
proof -
  have "map (\<lambda>x. case np_power (- 1) x of None \<Rightarrow> None | Some p \<Rightarrow> np_divide p (2 * x + 1))
          (map real [0..<nat N])
        = map (\<lambda>n. Some ((- 1) ^ n / (2 * real n + 1))) [0..<nat N]"
    by (simp add: np_power_int np_divide_odd)
  then have "ComputePiVectorised N ID
      = Inr (ID, Some (4 * sum_list (map (\<lambda>n. (- 1) ^ n / (2 * real n + 1)) [0..<nat N])))"
    using assms by (simp add: ComputePiVectorised_def linspace_range np_sum_Some del: map_map)
  also have "4 * sum_list (map (\<lambda>n. (- 1) ^ n / (2 * real n + 1)) [0..<nat N])
      = (\<Sum>n = 0..<nat N. 4 * (- 1) ^ n / (2 * real n + 1))"
    by (simp add: interv_sum_list_conv_sum_set_nat sum_distrib_left)
  finally show ?thesis .
qed

text \<open>
  C9. For every \<open>N \<ge> 1\<close> and every \<open>ID\<close>, \<open>ComputePiVectorised(N, ID)\<close> returns, in exact real
  arithmetic, the pair that \<open>ComputePi(N, ID)\<close> returns: \<open>ID\<close> with the \<open>N\<close>-th partial sum of
  the Madhava-Leibniz series, the sum of \<open>4 * (-1)^n / (2n + 1)\<close> for \<open>n\<close> from \<open>0\<close> to \<open>N - 1\<close>.
\<close>

theorem ComputePiVectorised_refines_ComputePi:
  assumes "1 \<le> N"
  shows "ComputePiVectorised N ID = Inr (ID, Some (snd (ComputePi N ID)))
       \<and> ComputePi N ID = (ID, \<Sum>n = 0..<nat N. 4 * (- 1) ^ n / (2 * real n + 1))"
  using assms by (simp add: ComputePiVectorised_sum ComputePi_sum)

theorem ComputePiVectorised_refines_ComputePi_witness:
  "(1::int) \<le> 3 \<and> ComputePiVectorised 3 (7::nat) = Inr (7, Some (52 / 15))
     \<and> ComputePi 3 (7::nat) = (7, 52 / 15)"
  using ComputePiVectorised_refines_ComputePi [of 3 "7::nat"]
  by (simp add: numeral_3_eq_3)

section \<open>Properties of the reduction of the nested worker\<close>

text \<open>
  C6, as the code has it. For every \<open>K \<ge> 1\<close> and every weight \<open>W \<ge> 1\<close>, when each of the \<open>K\<close>
  inner results equals \<open>c\<close> the reduction returns \<open>int(2 * c / W)\<close>: the mean \<open>c\<close> divided by
  the expected value \<open>0.5 * W\<close> of one weighted summand, truncated to an integer.
\<close>

theorem JobToPerformTasks_Sum_constant:
  assumes "1 \<le> K" and "1 \<le> W"
  shows "JobToPerformTasks_Sum (replicate (nat K) c) K W = Inr (py_int (2 * c / real_of_int W))"
proof -
  have "real_of_int K \<noteq> 0" "real_of_int W \<noteq> 0" using assms by auto
  then show ?thesis using assms
    by (simp add: JobToPerformTasks_Sum_def sum_list_replicate field_simps)
qed

theorem JobToPerformTasks_Sum_constant_witness:
  "(1::int) \<le> 8 \<and> (1::int) \<le> 3 \<and> JobToPerformTasks_Sum (replicate (nat 8) 6) 8 3 = Inr 4"
  using JobToPerformTasks_Sum_constant [of 8 3 6] by (simp add: py_int_def)

text \<open>
  Eight inner results that all equal \<open>3\<close>, reduced with weight \<open>1\<close>, give \<open>6\<close>, which is not
  within \<open>1\<close> of \<open>3\<close>.
\<close>

theorem JobToPerformTasks_Sum_not_identity:
  "JobToPerformTasks_Sum (replicate 8 3) 8 1 = Inr 6 \<and> \<not> within_tolerance 1 (real_of_int 6) 3"
  by (simp add: JobToPerformTasks_Sum_def py_int_def within_tolerance_def sum_list_replicate)

section \<open>Properties of the worker on the shared dictionary\<close>

lemma Worker_condition_entry:
  "Dict m Key = Some e \<Longrightarrow> e ''CompFinished'' = Some v \<Longrightarrow>
   Worker_condition m Key = (Inr (py_eq_False v), m\<lparr>Requests := Requests m @ [GetItem Key]\<rparr>)"
  by (simp add: Worker_condition_def getitem_def subscript_def)

lemma Worker_body_entry:
  assumes "Dict m Key = Some e" and "e ''Sequence'' = Some (PyList s)" and "2 \<le> length s"
  shows "Worker_body P Q m Key =
    (let x = P * last s - Q * s ! (length s - 2);
         e1 = e(''Sequence'' \<mapsto> PyList (s @ [x]));
         e2 = e1(''CompFinished'' \<mapsto> PyBool True, ''P'' \<mapsto> PyInt P, ''Q'' \<mapsto> PyInt Q)
     in if 1000 \<le> x
        then (Inr True, m\<lparr>Dict := (Dict m)(Key \<mapsto> e2),
                Requests := Requests m @
                  [GetItem Key, SetItem Key e1, GetItem Key, GetItem Key, SetItem Key e2]\<rparr>)
        else (Inr False, m\<lparr>Dict := (Dict m)(Key \<mapsto> e1),
                Requests := Requests m @ [GetItem Key, SetItem Key e1, GetItem Key]\<rparr>))"
  using assms
  by (simp add: Worker_body_def Worker_criterion_def Worker_finish_def getitem_def setitem_def
      subscript_def ComputeNextElementOfLucasSequence_def Let_def)

lemma Lucas_step_grows:
  fixes P Q a b :: int
  assumes "1 \<le> P" and "Q \<le> - 1" and "1 \<le> a" and "1 \<le> b"
  shows "b < P * b - Q * a"
proof -
  have "1 * b \<le> P * b"
    by (rule mult_right_mono) (use assms in auto)
  moreover have "1 * a \<le> (- Q) * a"
    by (rule mult_right_mono) (use assms in auto)
  ultimately show ?thesis using assms(3) by simp
qed


lemma Lucas_extend_step:
  "2 \<le> length s \<Longrightarrow>
   Lucas_extend (Suc n) P Q s = Lucas_extend n P Q (s @ [P * last s - Q * s ! (length s - 2)])"
  by (simp add: ComputeNextElementOfLucasSequence_def)

lemma Lucas_extend_grows:
  assumes "1 \<le> P" and "Q \<le> - 1"
  shows "2 \<le> length s \<Longrightarrow> 1 \<le> s ! (length s - 2) \<Longrightarrow> 1 \<le> last s \<Longrightarrow>
     last s + int n \<le> last (Lucas_extend n P Q s)"
proof (induction n arbitrary: s)
  case 0
  show ?case by simp
next
  case (Suc n)
  define x where "x = P * last s - Q * s ! (length s - 2)"
  have grow: "last s < x"
    unfolding x_def using assms Suc.prems(2,3) by (rule Lucas_step_grows)
  have "(s @ [x]) ! (length (s @ [x]) - 2) = s ! (length s - 1)"
    using Suc.prems(1) by (auto simp add: nth_append)
  moreover have "s \<noteq> []" using Suc.prems(1) by auto
  ultimately have "1 \<le> (s @ [x]) ! (length (s @ [x]) - 2)"
    using Suc.prems(3) by (simp add: last_conv_nth)
  moreover have "2 \<le> length (s @ [x])" using Suc.prems(1) by simp
  moreover have "1 \<le> last (s @ [x])" using grow Suc.prems(3) by simp
  ultimately have "last (s @ [x]) + int n \<le> last (Lucas_extend n P Q (s @ [x]))"
    by (intro Suc.IH)
  with grow show ?case
    unfolding Lucas_extend_step [OF Suc.prems(1)] by (simp flip: x_def)
qed

lemma Worker_while_terminates:
  assumes PQ: "1 \<le> P" "Q \<le> - 1"
  shows "Dict m Key = Some e \<Longrightarrow> e ''Sequence'' = Some (PyList s) \<Longrightarrow>
     e ''CompFinished'' = Some (PyBool False) \<Longrightarrow> 2 \<le> length s \<Longrightarrow>
     1 \<le> s ! (length s - 2) \<Longrightarrow> 1 \<le> last s \<Longrightarrow> list_all (\<lambda>y. y < 1000) s \<Longrightarrow>
     \<exists>m' s'. Worker_while P Q m Key = Some (Inr (), m')
        \<and> Dict m' = (Dict m)(Key \<mapsto> e(''Sequence'' \<mapsto> PyList (s @ s'),
              ''CompFinished'' \<mapsto> PyBool True, ''P'' \<mapsto> PyInt P, ''Q'' \<mapsto> PyInt Q))
        \<and> sorted_wrt (<) (last s # s') \<and> s' \<noteq> [] \<and> 1000 \<le> last s'
        \<and> list_all (\<lambda>y. y < 1000) (butlast s')
        \<and> s @ s' = Lucas_extend (length s') P Q s"
proof (induction "nat (1000 - last s)" arbitrary: m e s rule: less_induct)
  case less
  define x where "x = P * last s - Q * s ! (length s - 2)"
  define e1 where "e1 = e(''Sequence'' \<mapsto> PyList (s @ [x]))"
  define e2 where "e2 = e1(''CompFinished'' \<mapsto> PyBool True, ''P'' \<mapsto> PyInt P, ''Q'' \<mapsto> PyInt Q)"
  define m1 where "m1 = m\<lparr>Requests := Requests m @ [GetItem Key]\<rparr>"
  have grow: "last s < x"
    unfolding x_def using PQ less.prems(5,6) by (rule Lucas_step_grows)
  have cond: "Worker_condition m Key = (Inr True, m1)"
    using Worker_condition_entry [OF less.prems(1) less.prems(3)]
    by (simp add: py_eq_False_def m1_def)
  have m1: "Dict m1 Key = Some e" using less.prems(1) by (simp add: m1_def)
  note body = Worker_body_entry [OF m1 less.prems(2) less.prems(4), of P Q,
      unfolded Let_def, folded x_def, folded e1_def, folded e2_def]
  show ?case
  proof (cases "1000 \<le> x")
    case True
    let ?m' = "m1\<lparr>Dict := (Dict m1)(Key \<mapsto> e2),
       Requests := Requests m1 @ [GetItem Key, SetItem Key e1, GetItem Key, GetItem Key, SetItem Key e2]\<rparr>"
    have "Worker_while P Q m Key = Some (Inr (), ?m')"
      using True cond body by (subst Worker_while.simps) simp
    moreover have "Dict ?m' = (Dict m)(Key \<mapsto> e(''Sequence'' \<mapsto> PyList (s @ [x]),
              ''CompFinished'' \<mapsto> PyBool True, ''P'' \<mapsto> PyInt P, ''Q'' \<mapsto> PyInt Q))"
      by (simp add: m1_def e2_def e1_def)
    moreover have "s @ [x] = Lucas_extend (length [x]) P Q s"
      using Lucas_extend_step [OF less.prems(4), of 0 P Q] by (simp add: x_def)
    ultimately show ?thesis
      using True grow by (intro exI [of _ ?m'] exI [of _ "[x]"]) simp
  next
    case False
    let ?m2 = "m1\<lparr>Dict := (Dict m1)(Key \<mapsto> e1),
       Requests := Requests m1 @ [GetItem Key, SetItem Key e1, GetItem Key]\<rparr>"
    have unfold: "Worker_while P Q m Key = Worker_while P Q ?m2 Key"
      using False cond body by (subst Worker_while.simps) simp
    have len: "length s - Suc 0 = Suc (length s - 2)" using less.prems(4) by simp
    have s_ne: "s \<noteq> []" using less.prems(4) by auto
    have "\<exists>m' s'. Worker_while P Q ?m2 Key = Some (Inr (), m')
        \<and> Dict m' = (Dict ?m2)(Key \<mapsto> e1(''Sequence'' \<mapsto> PyList ((s @ [x]) @ s'),
              ''CompFinished'' \<mapsto> PyBool True, ''P'' \<mapsto> PyInt P, ''Q'' \<mapsto> PyInt Q))
        \<and> sorted_wrt (<) (last (s @ [x]) # s') \<and> s' \<noteq> [] \<and> 1000 \<le> last s'
        \<and> list_all (\<lambda>y. y < 1000) (butlast s')
        \<and> (s @ [x]) @ s' = Lucas_extend (length s') P Q (s @ [x])"
    proof (rule less.hyps)
      show "nat (1000 - last (s @ [x])) < nat (1000 - last s)"
        using False grow by simp
      show "Dict ?m2 Key = Some e1" by simp
      show "e1 ''Sequence'' = Some (PyList (s @ [x]))" by (simp add: e1_def)
      show "e1 ''CompFinished'' = Some (PyBool False)"
        using less.prems(3) by (simp add: e1_def)
      show "2 \<le> length (s @ [x])" using less.prems(4) by simp
      have "(s @ [x]) ! (length (s @ [x]) - 2) = s ! (length s - 1)"
        using less.prems(4) by (auto simp add: nth_append)
      then show "1 \<le> (s @ [x]) ! (length (s @ [x]) - 2)"
        using less.prems(6) s_ne by (simp add: last_conv_nth)
      show "1 \<le> last (s @ [x])" using grow less.prems(6) by simp
      show "list_all (\<lambda>y. y < 1000) (s @ [x])"
        using less.prems(7) False by simp
    qed
    then obtain m' s' where run: "Worker_while P Q ?m2 Key = Some (Inr (), m')"
      and dict: "Dict m' = (Dict ?m2)(Key \<mapsto> e1(''Sequence'' \<mapsto> PyList ((s @ [x]) @ s'),
              ''CompFinished'' \<mapsto> PyBool True, ''P'' \<mapsto> PyInt P, ''Q'' \<mapsto> PyInt Q))"
      and rest: "sorted_wrt (<) (last (s @ [x]) # s')" "s' \<noteq> []" "1000 \<le> last s'"
        "list_all (\<lambda>y. y < 1000) (butlast s')"
      and ext: "(s @ [x]) @ s' = Lucas_extend (length s') P Q (s @ [x])"
      by blast
    have "Dict m' = (Dict m)(Key \<mapsto> e(''Sequence'' \<mapsto> PyList (s @ x # s'),
              ''CompFinished'' \<mapsto> PyBool True, ''P'' \<mapsto> PyInt P, ''Q'' \<mapsto> PyInt Q))"
      using dict by (simp add: m1_def e1_def)
    moreover have "sorted_wrt (<) (last s # x # s')"
      using rest(1) grow by auto
    moreover have "list_all (\<lambda>y. y < 1000) (butlast (x # s'))"
      using rest(2,4) False by simp
    moreover have "s @ x # s' = Lucas_extend (length (x # s')) P Q s"
      using ext Lucas_extend_step [OF less.prems(4), of "length s'" P Q] by (simp add: x_def)
    ultimately show ?thesis
      using unfold run rest(2,3) by (intro exI [of _ m'] exI [of _ "x # s'"]) simp
  qed
qed



text \<open>
  A run of \<open>Worker\<close> for \<open>Key = 40\<close> with the draws \<open>P = 40\<close> and \<open>Q = -40\<close>: the sequence grows
  to \<open>[0, 1, 40, 1640]\<close> in two passes of the loop.
\<close>

lemma Worker_example:
  "map_option (\<lambda>(r, m). (r, map_option (\<lambda>d. map d [''Sequence'', ''CompFinished'', ''P'', ''Q''])
            (Dict m 40)))
     (Worker 40 (- 40)
        \<lparr>Dict = [40 \<mapsto> [''Sequence'' \<mapsto> PyList [0, 1], ''CompFinished'' \<mapsto> PyBool False]],
         Requests = []\<rparr> 40)
   = Some (Inr (), Some [Some (PyList [0, 1, 40, 1640]), Some (PyBool True),
                    Some (PyInt 40), Some (PyInt (- 40))])"
  by code_simp

lemma Worker_body_raises:
  assumes "\<not> (\<exists>e s. Dict m Key = Some e \<and> e ''Sequence'' = Some (PyList s) \<and> 2 \<le> length s)"
  shows "\<exists>err. Worker_body P Q m Key = (Inl err, m\<lparr>Requests := Requests m @ [GetItem Key]\<rparr>)"
  using assms
  by (auto simp: Worker_body_def getitem_def subscript_def ComputeNextElementOfLucasSequence_def
      split: option.splits pyval.splits)

lemma Worker_condition_requests:
  "snd (Worker_condition m Key) = m\<lparr>Requests := Requests m @ [GetItem Key]\<rparr>"
  by (simp add: Worker_condition_def getitem_def split: sum.splits)

lemma Worker_condition_True:
  assumes "Worker_condition m Key = (Inr c, m1)"
  shows "\<exists>e v. Dict m Key = Some e \<and> e ''CompFinished'' = Some v \<and> c = py_eq_False v"
  using assms
  by (auto simp: Worker_condition_def getitem_def subscript_def split: option.splits)

lemma write_backs_read:
  "write_backs P Q Key D False rs \<Longrightarrow> write_backs P Q Key D read rs"
proof (cases rs)
  case Nil
  then show ?thesis by simp
next
  case (Cons r rs')
  assume "write_backs P Q Key D False rs"
  with Cons show ?thesis by (cases r) simp_all
qed

lemma write_backs_append:
  "write_backs P Q Key D read rs \<Longrightarrow>
   write_backs P Q Key (fold apply_request rs D) False rs' \<Longrightarrow>
   write_backs P Q Key D read (rs @ rs')"
proof (induction rs arbitrary: D read)
  case Nil
  then show ?case by (simp add: write_backs_read)
next
  case (Cons r rs)
  show ?case
  proof (cases r)
    case (GetItem k)
    with Cons.prems have "write_backs P Q Key D True rs"
      and "write_backs P Q Key (fold apply_request rs D) False rs'"
      by simp_all
    then have "write_backs P Q Key D True (rs @ rs')" by (rule Cons.IH)
    with GetItem Cons.prems(1) show ?thesis by simp
  next
    case (SetItem k d)
    with Cons.prems have k: "k = Key" and "write_backs P Q Key (D(Key \<mapsto> d)) False rs"
      and "write_backs P Q Key (fold apply_request rs (D(Key \<mapsto> d))) False rs'"
      by simp_all
    then have "write_backs P Q Key (D(Key \<mapsto> d)) False (rs @ rs')" by (intro Cons.IH)
    with SetItem Cons.prems(1) show ?thesis by simp
  qed
qed

lemma write_backs_keys:
  "write_backs P Q Key D read rs \<Longrightarrow> list_all (\<lambda>r. request_key r = Key) rs"
proof (induction rs arbitrary: D read)
  case Nil
  show ?case by simp
next
  case (Cons r rs)
  then show ?case by (cases r) auto
qed

text \<open>
  The requests of one pass of the loop, condition and body, and the state in which the pass
  leaves the manager.
\<close>

lemma Worker_pass:
  assumes cond: "Worker_condition m Key = (Inr True, m1)"
  obtains
    (raised) err where "Worker_body P Q m1 Key
        = (Inl err, m\<lparr>Requests := Requests m @ [GetItem Key, GetItem Key]\<rparr>)"
  | (broke) e s x where "Dict m Key = Some e" and "e ''Sequence'' = Some (PyList s)"
      and "ComputeNextElementOfLucasSequence s P Q = Inr x" and "1000 \<le> x"
      and "Worker_body P Q m1 Key
        = (Inr True,
           m\<lparr>Dict := (Dict m)(Key \<mapsto> e(''Sequence'' \<mapsto> PyList (s @ [x]),
                  ''CompFinished'' \<mapsto> PyBool True, ''P'' \<mapsto> PyInt P, ''Q'' \<mapsto> PyInt Q)),
             Requests := Requests m @
               [GetItem Key, GetItem Key, SetItem Key (e(''Sequence'' \<mapsto> PyList (s @ [x]))),
                GetItem Key, GetItem Key,
                SetItem Key (e(''Sequence'' \<mapsto> PyList (s @ [x]),
                  ''CompFinished'' \<mapsto> PyBool True, ''P'' \<mapsto> PyInt P, ''Q'' \<mapsto> PyInt Q))]\<rparr>)"
  | (again) e s x where "Dict m Key = Some e" and "e ''Sequence'' = Some (PyList s)"
      and "ComputeNextElementOfLucasSequence s P Q = Inr x" and "\<not> 1000 \<le> x"
      and "Worker_body P Q m1 Key
        = (Inr False,
           m\<lparr>Dict := (Dict m)(Key \<mapsto> e(''Sequence'' \<mapsto> PyList (s @ [x]))),
             Requests := Requests m @
               [GetItem Key, GetItem Key, SetItem Key (e(''Sequence'' \<mapsto> PyList (s @ [x]))),
                GetItem Key]\<rparr>)"
proof -
  have m1: "m1 = m\<lparr>Requests := Requests m @ [GetItem Key]\<rparr>"
    using Worker_condition_requests [of m Key] cond by simp
  show thesis
  proof (cases "\<exists>e s. Dict m Key = Some e \<and> e ''Sequence'' = Some (PyList s) \<and> 2 \<le> length s")
    case False
    then have "\<not> (\<exists>e s. Dict m1 Key = Some e \<and> e ''Sequence'' = Some (PyList s)
        \<and> 2 \<le> length s)"
      by (simp add: m1)
    from Worker_body_raises [OF this, of P Q] obtain err where
      "Worker_body P Q m1 Key = (Inl err, m1\<lparr>Requests := Requests m1 @ [GetItem Key]\<rparr>)"
      by blast
    then show ?thesis by (intro raised [of err]) (simp add: m1)
  next
    case True
    then obtain e s where e: "Dict m Key = Some e" and s: "e ''Sequence'' = Some (PyList s)"
      and len: "2 \<le> length s" by blast
    define x where "x = P * last s - Q * s ! (length s - 2)"
    have next_x: "ComputeNextElementOfLucasSequence s P Q = Inr x"
      using len by (simp add: ComputeNextElementOfLucasSequence_def x_def)
    have e1: "Dict m1 Key = Some e" using e by (simp add: m1)
    note body = Worker_body_entry [OF e1 s len, of P Q, unfolded Let_def, folded x_def]
    show ?thesis
    proof (cases "1000 \<le> x")
      case True
      with body show ?thesis
        by (intro broke [OF e s next_x True]) (simp add: m1)
    next
      case False
      with body show ?thesis
        by (intro again [OF e s next_x False]) (simp add: m1)
    qed
  qed
qed

lemma Worker_while_requests:
  assumes "Worker_while P Q m Key = Some (r, m')"
  shows "\<exists>rs. m' = m\<lparr>Dict := fold apply_request rs (Dict m), Requests := Requests m @ rs\<rparr>
      \<and> rs \<noteq> [] \<and> hd rs = GetItem Key
      \<and> write_backs P Q Key (Dict m) False rs
      \<and> (r = Inr ()
           \<and> (\<exists>e v. Dict m Key = Some e \<and> e ''CompFinished'' = Some v \<and> py_eq_False v) \<longrightarrow>
          (\<exists>d. last rs = SetItem Key d \<and> d ''CompFinished'' = Some (PyBool True)
             \<and> d ''P'' = Some (PyInt P) \<and> d ''Q'' = Some (PyInt Q)))"
proof -
  define good :: "int \<Rightarrow> int \<Rightarrow> manager \<Rightarrow> int \<Rightarrow> (py_error + unit) \<times> manager \<Rightarrow> bool"
    where "good = (\<lambda>P Q m Key y.
      \<exists>rs. snd y = m\<lparr>Dict := fold apply_request rs (Dict m), Requests := Requests m @ rs\<rparr>
      \<and> rs \<noteq> [] \<and> hd rs = GetItem Key
      \<and> write_backs P Q Key (Dict m) False rs
      \<and> (fst y = Inr ()
           \<and> (\<exists>e v. Dict m Key = Some e \<and> e ''CompFinished'' = Some v \<and> py_eq_False v) \<longrightarrow>
          (\<exists>d. last rs = SetItem Key d \<and> d ''CompFinished'' = Some (PyBool True)
             \<and> d ''P'' = Some (PyInt P) \<and> d ''Q'' = Some (PyInt Q))))"
  define Prop :: "((int \<times> int) \<times> manager) \<times> int \<Rightarrow> (py_error + unit) \<times> manager \<Rightarrow> bool"
    where "Prop = (\<lambda>a y. good (fst (fst (fst a))) (snd (fst (fst a))) (snd (fst a)) (snd a) y)"
  have "Prop (((P, Q), m), Key) (r, m')"
  proof (rule Worker_while.raw_induct [where Pa = Prop, OF _ assms])
    fix W :: "int \<Rightarrow> int \<Rightarrow> manager \<Rightarrow> int \<Rightarrow> ((py_error + unit) \<times> manager) option"
    fix P Q :: int and m :: manager and Key :: int and y :: "(py_error + unit) \<times> manager"
    assume IH: "\<And>Q m Key b y. W Q m Key b = Some y \<Longrightarrow> Prop (((Q, m), Key), b) y"
    assume eq: "(case Worker_condition m Key of (Inl e, m1) \<Rightarrow> Some (Inl e, m1)
      | (Inr c, m1) \<Rightarrow>
          if c
          then case Worker_body P Q m1 Key of (Inl e, m2) \<Rightarrow> Some (Inl e, m2)
               | (Inr break, m2) \<Rightarrow>
                   if break then Some (Inr (), m2)
                   else W P Q m2 Key
          else Some (Inr (), m1)) = Some y"
    define m1 where "m1 = m\<lparr>Requests := Requests m @ [GetItem Key]\<rparr>"
    obtain c where cond: "Worker_condition m Key = (c, m1)"
      using Worker_condition_requests [of m Key] unfolding m1_def
      by (cases "Worker_condition m Key") simp
    have "good P Q m Key y"
    proof (cases "c = Inr True")
      case False
      with eq cond have y: "snd y = m1" and "fst y = Inr () \<longrightarrow> c = Inr False"
        by (auto split: sum.splits if_splits)
      with cond have "fst y = Inr ()
          \<and> (\<exists>e v. Dict m Key = Some e \<and> e ''CompFinished'' = Some v \<and> py_eq_False v) \<longrightarrow> False"
        using Worker_condition_True [of m Key False m1] by auto
      with y show ?thesis
        unfolding good_def by (intro exI [of _ "[GetItem Key]"]) (auto simp: m1_def)
    next
      case True
      with cond have cond: "Worker_condition m Key = (Inr True, m1)" by simp
      from cond show ?thesis
      proof (cases rule: Worker_pass [where P = P and Q = Q])
        case (raised err)
        with eq cond have "y = (Inl err, m\<lparr>Requests := Requests m @ [GetItem Key, GetItem Key]\<rparr>)"
          by simp
        then show ?thesis
          unfolding good_def by (intro exI [of _ "[GetItem Key, GetItem Key]"]) simp
      next
        case (broke e s x)
        let ?e1 = "e(''Sequence'' \<mapsto> PyList (s @ [x]))"
        let ?e2 = "e(''Sequence'' \<mapsto> PyList (s @ [x]),
                  ''CompFinished'' \<mapsto> PyBool True, ''P'' \<mapsto> PyInt P, ''Q'' \<mapsto> PyInt Q)"
        let ?rs = "[GetItem Key, GetItem Key, SetItem Key ?e1, GetItem Key, GetItem Key,
            SetItem Key ?e2]"
        from eq cond broke(5)
        have "y = (Inr (), m\<lparr>Dict := (Dict m)(Key \<mapsto> ?e2), Requests := Requests m @ ?rs\<rparr>)"
          by simp
        moreover have "write_backs P Q Key (Dict m) False ?rs"
          using broke(1,2,3) by simp
        ultimately show ?thesis
          unfolding good_def by (intro exI [of _ ?rs]) simp
      next
        case (again e s x)
        let ?e1 = "e(''Sequence'' \<mapsto> PyList (s @ [x]))"
        let ?rs = "[GetItem Key, GetItem Key, SetItem Key ?e1, GetItem Key]"
        define m2 where "m2 = m\<lparr>Dict := (Dict m)(Key \<mapsto> ?e1), Requests := Requests m @ ?rs\<rparr>"
        from eq cond again(5) have "W P Q m2 Key = Some y"
          by (simp add: m2_def)
        from IH [OF this] have "good P Q m2 Key y" by (simp add: Prop_def)
        then obtain rs' where
          y: "snd y = m2\<lparr>Dict := fold apply_request rs' (Dict m2), Requests := Requests m2 @ rs'\<rparr>"
          and ne: "rs' \<noteq> []"
          and wb: "write_backs P Q Key (Dict m2) False rs'"
          and fin: "fst y = Inr ()
             \<and> (\<exists>e v. Dict m2 Key = Some e \<and> e ''CompFinished'' = Some v \<and> py_eq_False v) \<longrightarrow>
            (\<exists>d. last rs' = SetItem Key d \<and> d ''CompFinished'' = Some (PyBool True)
               \<and> d ''P'' = Some (PyInt P) \<and> d ''Q'' = Some (PyInt Q))"
          unfolding good_def by blast
        have fold: "fold apply_request ?rs (Dict m) = Dict m2"
          by (simp add: m2_def)
        have "write_backs P Q Key (Dict m) False ?rs"
          using again(1,2,3) by simp
        then have wb': "write_backs P Q Key (Dict m) False (?rs @ rs')"
          using wb unfolding fold [symmetric] by (rule write_backs_append)
        have y': "snd y = m\<lparr>Dict := fold apply_request (?rs @ rs') (Dict m),
            Requests := Requests m @ (?rs @ rs')\<rparr>"
          using y unfolding fold_append comp_def fold by (simp add: m2_def)
        have "\<exists>e v. Dict m2 Key = Some e \<and> e ''CompFinished'' = Some v \<and> py_eq_False v"
          if "\<exists>e v. Dict m Key = Some e \<and> e ''CompFinished'' = Some v \<and> py_eq_False v"
          using that again(1) by (auto simp: m2_def)
        with fin ne have fin': "fst y = Inr ()
             \<and> (\<exists>e v. Dict m Key = Some e \<and> e ''CompFinished'' = Some v \<and> py_eq_False v) \<longrightarrow>
            (\<exists>d. last (?rs @ rs') = SetItem Key d \<and> d ''CompFinished'' = Some (PyBool True)
               \<and> d ''P'' = Some (PyInt P) \<and> d ''Q'' = Some (PyInt Q))"
          by (simp del: fun_upd_apply)
        show ?thesis
          unfolding good_def using y' wb' fin'
          by (intro exI [of _ "?rs @ rs'"]) (simp del: write_backs.simps fun_upd_apply)
      qed
    qed
    then show "Prop (((P, Q), m), Key) y" by (simp add: Prop_def)
  qed
  then show ?thesis by (simp add: Prop_def good_def)
qed

text \<open>
  C10. For every \<open>Key \<ge> 1\<close>, every \<open>P\<close> with \<open>1 \<le> P \<le> Key\<close> and every \<open>Q\<close> with
  \<open>-Key \<le> Q \<le> -1\<close>, the loop of \<open>Worker\<close> started on the sequence \<open>[0, 1]\<close> with
  \<open>CompFinished\<close> false terminates without an exception. The first pass appends \<open>P\<close>; from the
  second pass on each appended element is strictly greater than its predecessor; every
  element but the last is below \<open>1000\<close>, the last one is at least \<open>1000\<close>, and the entry then
  has \<open>CompFinished\<close> true and holds \<open>P\<close> and \<open>Q\<close>. The sequence built is a prefix of the
  sequence that the repeated calls of \<open>ComputeNextElementOfLucasSequence\<close> generate, and that
  sequence grows without bound: its element after \<open>n + 1\<close> calls exceeds \<open>n\<close>.
\<close>

theorem Worker_terminates:
  assumes "1 \<le> Key" and "1 \<le> P" and "P \<le> Key" and "- Key \<le> Q" and "Q \<le> - 1"
    and "Dict m Key = Some e"
    and "e ''Sequence'' = Some (PyList [0, 1])"
    and "e ''CompFinished'' = Some (PyBool False)"
  shows "\<exists>m' Seq. Worker P Q m Key = Some (Inr (), m')
      \<and> Dict m' = (Dict m)(Key \<mapsto> e(''Sequence'' \<mapsto> PyList ([0, 1, P] @ Seq),
            ''CompFinished'' \<mapsto> PyBool True, ''P'' \<mapsto> PyInt P, ''Q'' \<mapsto> PyInt Q))
      \<and> sorted_wrt (<) (P # Seq)
      \<and> 1000 \<le> last (P # Seq)
      \<and> list_all (\<lambda>y. y < 1000) (butlast ([0, 1, P] @ Seq))
      \<and> [0, 1, P] @ Seq = Lucas_extend (Suc (length Seq)) P Q [0, 1]
      \<and> (\<forall>n. int n < last (Lucas_extend (Suc n) P Q [0, 1]))"
proof -
  have first: "Lucas_extend (Suc n) P Q [0, 1] = Lucas_extend n P Q [0, 1, P]" for n
    using Lucas_extend_step [of "[0, 1]" n P Q] by simp
  have unbounded: "\<forall>n. int n < last (Lucas_extend (Suc n) P Q [0, 1])"
  proof
    fix n
    have "last [0, 1, P] + int n \<le> last (Lucas_extend n P Q [0, 1, P])"
      by (rule Lucas_extend_grows [OF assms(2) assms(5)]) (use assms(2) in simp_all)
    with assms(2) show "int n < last (Lucas_extend (Suc n) P Q [0, 1])"
      unfolding first by simp
  qed
  define e1 where "e1 = e(''Sequence'' \<mapsto> PyList ([0, 1] @ [P]))"
  define e2 where "e2 = e1(''CompFinished'' \<mapsto> PyBool True, ''P'' \<mapsto> PyInt P, ''Q'' \<mapsto> PyInt Q)"
  define m1 where "m1 = m\<lparr>Requests := Requests m @ [GetItem Key]\<rparr>"
  have W: "Worker P Q m Key = Worker_while P Q m Key"
    using assms(1) by (simp add: Worker_def)
  have cond: "Worker_condition m Key = (Inr True, m1)"
    using Worker_condition_entry [OF assms(6) assms(8)] by (simp add: py_eq_False_def m1_def)
  have m1: "Dict m1 Key = Some e" using assms(6) by (simp add: m1_def)
  have x: "P * last [0, 1] - Q * [0, 1] ! (length [0, 1::int] - 2) = P" by simp
  have len: "2 \<le> length [0, 1::int]" by simp
  note body = Worker_body_entry [OF m1 assms(7) len, of P Q,
      unfolded Let_def x, folded e1_def, folded e2_def]
  show ?thesis
  proof (cases "1000 \<le> P")
    case True
    let ?m' = "m1\<lparr>Dict := (Dict m1)(Key \<mapsto> e2),
       Requests := Requests m1 @ [GetItem Key, SetItem Key e1, GetItem Key, GetItem Key, SetItem Key e2]\<rparr>"
    have "Worker_while P Q m Key = Some (Inr (), ?m')"
      using True cond body by (subst Worker_while.simps) simp
    moreover have "Dict ?m' = (Dict m)(Key \<mapsto> e(''Sequence'' \<mapsto> PyList ([0, 1, P] @ []),
            ''CompFinished'' \<mapsto> PyBool True, ''P'' \<mapsto> PyInt P, ''Q'' \<mapsto> PyInt Q))"
      by (simp add: m1_def e2_def e1_def)
    ultimately show ?thesis
      using True W unbounded first [of 0]
      by (intro exI [of _ ?m'] exI [of _ "[]"]) (simp del: Lucas_extend.simps(2))
  next
    case False
    let ?m2 = "m1\<lparr>Dict := (Dict m1)(Key \<mapsto> e1),
       Requests := Requests m1 @ [GetItem Key, SetItem Key e1, GetItem Key]\<rparr>"
    have unfold: "Worker_while P Q m Key = Worker_while P Q ?m2 Key"
      using False cond body by (subst Worker_while.simps) simp
    have "\<exists>m' s'. Worker_while P Q ?m2 Key = Some (Inr (), m')
        \<and> Dict m' = (Dict ?m2)(Key \<mapsto> e1(''Sequence'' \<mapsto> PyList ([0, 1, P] @ s'),
              ''CompFinished'' \<mapsto> PyBool True, ''P'' \<mapsto> PyInt P, ''Q'' \<mapsto> PyInt Q))
        \<and> sorted_wrt (<) (last [0, 1, P] # s') \<and> s' \<noteq> [] \<and> 1000 \<le> last s'
        \<and> list_all (\<lambda>y. y < 1000) (butlast s')
        \<and> [0, 1, P] @ s' = Lucas_extend (length s') P Q [0, 1, P]"
    proof (rule Worker_while_terminates [OF assms(2) assms(5)])
      show "Dict ?m2 Key = Some e1" by simp
      show "e1 ''Sequence'' = Some (PyList [0, 1, P])" by (simp add: e1_def)
      show "e1 ''CompFinished'' = Some (PyBool False)" using assms(8) by (simp add: e1_def)
      show "2 \<le> length [0, 1, P]" by simp
      show "1 \<le> [0, 1, P] ! (length [0, 1, P] - 2)" by simp
      show "1 \<le> last [0, 1, P]" using assms(2) by simp
      show "list_all (\<lambda>y. y < 1000) [0, 1, P]" using False by simp
    qed
    then obtain m' s' where run: "Worker_while P Q ?m2 Key = Some (Inr (), m')"
      and dict: "Dict m' = (Dict ?m2)(Key \<mapsto> e1(''Sequence'' \<mapsto> PyList ([0, 1, P] @ s'),
              ''CompFinished'' \<mapsto> PyBool True, ''P'' \<mapsto> PyInt P, ''Q'' \<mapsto> PyInt Q))"
      and rest: "sorted_wrt (<) (last [0, 1, P] # s')" "s' \<noteq> []" "1000 \<le> last s'"
        "list_all (\<lambda>y. y < 1000) (butlast s')"
      and ext: "[0, 1, P] @ s' = Lucas_extend (length s') P Q [0, 1, P]"
      by blast
    have "Dict m' = (Dict m)(Key \<mapsto> e(''Sequence'' \<mapsto> PyList ([0, 1, P] @ s'),
            ''CompFinished'' \<mapsto> PyBool True, ''P'' \<mapsto> PyInt P, ''Q'' \<mapsto> PyInt Q))"
      using dict by (simp add: m1_def e1_def)
    moreover have "list_all (\<lambda>y. y < 1000) (butlast ([0, 1, P] @ s'))"
      using rest(2,4) False by (simp add: butlast_append)
    ultimately have "Worker P Q m Key = Some (Inr (), m')
      \<and> Dict m' = (Dict m)(Key \<mapsto> e(''Sequence'' \<mapsto> PyList ([0, 1, P] @ s'),
            ''CompFinished'' \<mapsto> PyBool True, ''P'' \<mapsto> PyInt P, ''Q'' \<mapsto> PyInt Q))
      \<and> sorted_wrt (<) (P # s')
      \<and> 1000 \<le> last (P # s')
      \<and> list_all (\<lambda>y. y < 1000) (butlast ([0, 1, P] @ s'))"
      using W unfold run rest(1,2,3) by simp
    moreover have "[0, 1, P] @ s' = Lucas_extend (Suc (length s')) P Q [0, 1]"
      using ext by (simp only: first)
    ultimately show ?thesis
      using unbounded by (intro exI [of _ m'] exI [of _ s']) blast
  qed
qed


theorem Worker_terminates_witness:
  "(1::int) \<le> 40 \<and> (40::int) \<le> 40 \<and> - (40::int) \<le> - 40 \<and> - (40::int) \<le> - 1
   \<and> (\<exists>m'. Worker 40 (- 40)
          \<lparr>Dict = [40 \<mapsto> [''Sequence'' \<mapsto> PyList [0, 1], ''CompFinished'' \<mapsto> PyBool False]],
           Requests = []\<rparr> 40 = Some (Inr (), m')
        \<and> map_option (\<lambda>d. map d [''Sequence'', ''CompFinished'', ''P'', ''Q'']) (Dict m' 40)
            = Some [Some (PyList [0, 1, 40, 1640]), Some (PyBool True),
                    Some (PyInt 40), Some (PyInt (- 40))])"
proof -
  let ?e = "[''Sequence'' \<mapsto> PyList [0, 1], ''CompFinished'' \<mapsto> PyBool False]"
  let ?m = "\<lparr>Dict = [40 \<mapsto> ?e], Requests = []\<rparr>"
  have "\<exists>m' Seq. Worker 40 (- 40) ?m 40 = Some (Inr (), m')
      \<and> Dict m' = (Dict ?m)(40 \<mapsto> ?e(''Sequence'' \<mapsto> PyList ([0, 1, 40] @ Seq),
            ''CompFinished'' \<mapsto> PyBool True, ''P'' \<mapsto> PyInt 40, ''Q'' \<mapsto> PyInt (- 40)))
      \<and> sorted_wrt (<) (40 # Seq)
      \<and> 1000 \<le> last (40 # Seq)
      \<and> list_all (\<lambda>y. y < 1000) (butlast ([0, 1, 40] @ Seq))
      \<and> [0, 1, 40] @ Seq = Lucas_extend (Suc (length Seq)) 40 (- 40) [0, 1]
      \<and> (\<forall>n. int n < last (Lucas_extend (Suc n) 40 (- 40) [0, 1]))"
    by (rule Worker_terminates) simp_all
  then obtain m' where run: "Worker 40 (- 40) ?m 40 = Some (Inr (), m')"
    by blast
  with Worker_example show ?thesis by simp
qed

lemma Worker_example_requests:
  "map_option (\<lambda>(r, m). map (\<lambda>r. case r of GetItem k \<Rightarrow> (k, None)
          | SetItem k d \<Rightarrow> (k, Some [d ''Sequence'', d ''CompFinished'', d ''P'', d ''Q'']))
        (Requests m))
     (Worker 40 (- 40)
        \<lparr>Dict = [40 \<mapsto> [''Sequence'' \<mapsto> PyList [0, 1], ''CompFinished'' \<mapsto> PyBool False]],
         Requests = []\<rparr> 40)
   = Some [(40, None),
       (40, None),
       (40, Some [Some (PyList [0, 1, 40]), Some (PyBool False), None, None]),
       (40, None),
       (40, None),
       (40, None),
       (40, Some [Some (PyList [0, 1, 40, 1640]), Some (PyBool False), None, None]),
       (40, None),
       (40, None),
       (40, Some [Some (PyList [0, 1, 40, 1640]), Some (PyBool True), Some (PyInt 40),
                  Some (PyInt (- 40))])]"
  by code_simp

text \<open>
  C8. Every access of \<open>Worker\<close> to the shared dictionary is a request for its own key, and
  every change of the shared dictionary is the replacement of the whole entry of that key.
  The loop condition sends one \<open>GetItem Key\<close>. One pass of the body on an entry \<open>e\<close> whose
  sequence has at least two elements reads the entry (\<open>GetItem Key\<close>), writes back the copy
  \<open>e1\<close> with the extended sequence by one \<open>SetItem Key e1\<close>, reads again for the criterion,
  and, when the criterion holds, reads once more and writes back the copy \<open>e2\<close> with
  \<open>CompFinished\<close>, \<open>P\<close> and \<open>Q\<close> set by one \<open>SetItem Key e2\<close>; on any other dictionary the
  pass raises an exception after its first \<open>GetItem Key\<close> and changes nothing. Whenever
  \<open>Worker\<close> returns, the dictionary in the manager is the old one with the requests of the
  run applied in order; for \<open>Key \<ge> 1\<close> the run has sent requests, starting with the
  \<open>GetItem Key\<close> of the condition; every \<open>SetItem\<close> of the run directly follows a \<open>GetItem\<close>
  and writes the entry read with the sequence extended or the three fields set; and a run
  that ends without exception on an entry that was not finished has ended with the
  \<open>SetItem\<close> that sets \<open>CompFinished\<close>, \<open>P\<close> and \<open>Q\<close>.
\<close>

theorem Worker_whole_entry_replacement:
  "snd (Worker_condition m Key) = m\<lparr>Requests := Requests m @ [GetItem Key]\<rparr>
   \<and> (\<forall>e s. Dict m Key = Some e \<and> e ''Sequence'' = Some (PyList s) \<and> 2 \<le> length s \<longrightarrow>
         Worker_body P Q m Key =
           (let x = P * last s - Q * s ! (length s - 2);
                e1 = e(''Sequence'' \<mapsto> PyList (s @ [x]));
                e2 = e1(''CompFinished'' \<mapsto> PyBool True, ''P'' \<mapsto> PyInt P, ''Q'' \<mapsto> PyInt Q)
            in if 1000 \<le> x
               then (Inr True, m\<lparr>Dict := (Dict m)(Key \<mapsto> e2),
                       Requests := Requests m @
                         [GetItem Key, SetItem Key e1, GetItem Key, GetItem Key, SetItem Key e2]\<rparr>)
               else (Inr False, m\<lparr>Dict := (Dict m)(Key \<mapsto> e1),
                       Requests := Requests m @ [GetItem Key, SetItem Key e1, GetItem Key]\<rparr>)))
   \<and> (\<not> (\<exists>e s. Dict m Key = Some e \<and> e ''Sequence'' = Some (PyList s) \<and> 2 \<le> length s) \<longrightarrow>
         (\<exists>err. Worker_body P Q m Key
                  = (Inl err, m\<lparr>Requests := Requests m @ [GetItem Key]\<rparr>)))
   \<and> (\<forall>r m'. Worker P Q m Key = Some (r, m') \<longrightarrow>
         (\<exists>rs. m' = m\<lparr>Dict := fold apply_request rs (Dict m), Requests := Requests m @ rs\<rparr>
            \<and> list_all (\<lambda>r. request_key r = Key) rs
            \<and> (if Key < 1 then rs = [] \<and> r = Inl ValueError
                else rs \<noteq> [] \<and> hd rs = GetItem Key)
            \<and> write_backs P Q Key (Dict m) False rs
            \<and> (r = Inr ()
                 \<and> (\<exists>e v. Dict m Key = Some e \<and> e ''CompFinished'' = Some v \<and> py_eq_False v)
                \<longrightarrow> (\<exists>d. last rs = SetItem Key d \<and> d ''CompFinished'' = Some (PyBool True)
                       \<and> d ''P'' = Some (PyInt P) \<and> d ''Q'' = Some (PyInt Q)))))"
proof (intro conjI allI impI)
  show "snd (Worker_condition m Key) = m\<lparr>Requests := Requests m @ [GetItem Key]\<rparr>"
    by (rule Worker_condition_requests)
next
  fix e s
  assume "Dict m Key = Some e \<and> e ''Sequence'' = Some (PyList s) \<and> 2 \<le> length s"
  then show "Worker_body P Q m Key =
           (let x = P * last s - Q * s ! (length s - 2);
                e1 = e(''Sequence'' \<mapsto> PyList (s @ [x]));
                e2 = e1(''CompFinished'' \<mapsto> PyBool True, ''P'' \<mapsto> PyInt P, ''Q'' \<mapsto> PyInt Q)
            in if 1000 \<le> x
               then (Inr True, m\<lparr>Dict := (Dict m)(Key \<mapsto> e2),
                       Requests := Requests m @
                         [GetItem Key, SetItem Key e1, GetItem Key, GetItem Key, SetItem Key e2]\<rparr>)
               else (Inr False, m\<lparr>Dict := (Dict m)(Key \<mapsto> e1),
                       Requests := Requests m @ [GetItem Key, SetItem Key e1, GetItem Key]\<rparr>))"
    by (intro Worker_body_entry) simp_all
next
  assume "\<not> (\<exists>e s. Dict m Key = Some e \<and> e ''Sequence'' = Some (PyList s) \<and> 2 \<le> length s)"
  then show "\<exists>err. Worker_body P Q m Key
      = (Inl err, m\<lparr>Requests := Requests m @ [GetItem Key]\<rparr>)"
    by (rule Worker_body_raises)
next
  fix r m'
  assume run: "Worker P Q m Key = Some (r, m')"
  show "\<exists>rs. m' = m\<lparr>Dict := fold apply_request rs (Dict m), Requests := Requests m @ rs\<rparr>
            \<and> list_all (\<lambda>r. request_key r = Key) rs
            \<and> (if Key < 1 then rs = [] \<and> r = Inl ValueError
                else rs \<noteq> [] \<and> hd rs = GetItem Key)
            \<and> write_backs P Q Key (Dict m) False rs
            \<and> (r = Inr ()
                 \<and> (\<exists>e v. Dict m Key = Some e \<and> e ''CompFinished'' = Some v \<and> py_eq_False v)
                \<longrightarrow> (\<exists>d. last rs = SetItem Key d \<and> d ''CompFinished'' = Some (PyBool True)
                       \<and> d ''P'' = Some (PyInt P) \<and> d ''Q'' = Some (PyInt Q)))"
  proof (cases "Key < 1")
    case True
    with run have "m' = m" and "r = Inl ValueError" by (simp_all add: Worker_def)
    with True show ?thesis by (intro exI [of _ "[]"]) simp
  next
    case False
    with run have "Worker_while P Q m Key = Some (r, m')" by (simp add: Worker_def)
    from Worker_while_requests [OF this] obtain rs where
      rs: "m' = m\<lparr>Dict := fold apply_request rs (Dict m), Requests := Requests m @ rs\<rparr>"
        "rs \<noteq> []" "hd rs = GetItem Key" "write_backs P Q Key (Dict m) False rs"
        "r = Inr ()
           \<and> (\<exists>e v. Dict m Key = Some e \<and> e ''CompFinished'' = Some v \<and> py_eq_False v) \<longrightarrow>
          (\<exists>d. last rs = SetItem Key d \<and> d ''CompFinished'' = Some (PyBool True)
             \<and> d ''P'' = Some (PyInt P) \<and> d ''Q'' = Some (PyInt Q))"
      by blast
    from rs(4) have "list_all (\<lambda>r. request_key r = Key) rs" by (rule write_backs_keys)
    with rs False show ?thesis by (intro exI [of _ rs]) simp
  qed
qed

theorem Worker_whole_entry_replacement_witness:
  "(\<exists>e v. [40 \<mapsto> [''Sequence'' \<mapsto> PyList [0, 1], ''CompFinished'' \<mapsto> PyBool False]] (40::int)
            = Some e
        \<and> e ''CompFinished'' = Some v \<and> py_eq_False v)
   \<and> (\<exists>m'. Worker 40 (- 40)
          \<lparr>Dict = [40 \<mapsto> [''Sequence'' \<mapsto> PyList [0, 1], ''CompFinished'' \<mapsto> PyBool False]],
           Requests = []\<rparr> 40 = Some (Inr (), m')
        \<and> map (\<lambda>r. case r of GetItem k \<Rightarrow> (k, None)
                | SetItem k d \<Rightarrow> (k, Some [d ''Sequence'', d ''CompFinished'', d ''P'', d ''Q'']))
             (Requests m')
           = [(40, None),
              (40, None),
              (40, Some [Some (PyList [0, 1, 40]), Some (PyBool False), None, None]),
              (40, None),
              (40, None),
              (40, None),
              (40, Some [Some (PyList [0, 1, 40, 1640]), Some (PyBool False), None, None]),
              (40, None),
              (40, None),
              (40, Some [Some (PyList [0, 1, 40, 1640]), Some (PyBool True), Some (PyInt 40),
                         Some (PyInt (- 40))])]
        \<and> write_backs 40 (- 40) 40
             [40 \<mapsto> [''Sequence'' \<mapsto> PyList [0, 1], ''CompFinished'' \<mapsto> PyBool False]] False
             (Requests m')
        \<and> (\<exists>d. last (Requests m') = SetItem 40 d \<and> d ''CompFinished'' = Some (PyBool True)))"
proof -
  let ?e = "[''Sequence'' \<mapsto> PyList [0, 1], ''CompFinished'' \<mapsto> PyBool False]"
  let ?m = "\<lparr>Dict = [40 \<mapsto> ?e], Requests = []\<rparr>"
  have unfinished: "\<exists>e v. Dict ?m 40 = Some e \<and> e ''CompFinished'' = Some v \<and> py_eq_False v"
    by (simp add: py_eq_False_def)
  obtain m' where run: "Worker 40 (- 40) ?m 40 = Some (Inr (), m')"
    using Worker_example by (cases "Worker 40 (- 40) ?m 40") auto
  with unfinished Worker_whole_entry_replacement [of ?m 40 40 "- 40"]
  obtain rs where
    "m' = ?m\<lparr>Dict := fold apply_request rs (Dict ?m), Requests := Requests ?m @ rs\<rparr>"
    and "write_backs 40 (- 40) 40 (Dict ?m) False rs"
    and "\<exists>d. last rs = SetItem 40 d \<and> d ''CompFinished'' = Some (PyBool True)"
    by blast
  then have "write_backs 40 (- 40) 40 [40 \<mapsto> ?e] False (Requests m')"
    and "\<exists>d. last (Requests m') = SetItem 40 d \<and> d ''CompFinished'' = Some (PyBool True)"
    by simp_all
  moreover have "map (\<lambda>r. case r of GetItem k \<Rightarrow> (k, None)
                | SetItem k d \<Rightarrow> (k, Some [d ''Sequence'', d ''CompFinished'', d ''P'', d ''Q'']))
             (Requests m')
           = [(40, None),
              (40, None),
              (40, Some [Some (PyList [0, 1, 40]), Some (PyBool False), None, None]),
              (40, None),
              (40, None),
              (40, None),
              (40, Some [Some (PyList [0, 1, 40, 1640]), Some (PyBool False), None, None]),
              (40, None),
              (40, None),
              (40, Some [Some (PyList [0, 1, 40, 1640]), Some (PyBool True), Some (PyInt 40),
                         Some (PyInt (- 40))])]"
    using Worker_example_requests run by simp
  ultimately show ?thesis
    using run unfinished by (intro conjI exI [of _ m']) simp_all
qed

section \<open>Properties of the pool: direct submission\<close>

lemma CPUHeavyFunction_id:
  "NumbersToDraw \<noteq> 0 \<Longrightarrow> \<exists>Pi. CPUHeavyFunction rnd NumbersToDraw ID = Inr (ID, Pi)"
  by (simp add: CPUHeavyFunction_def Let_def)

lemma apply_async_all_RUN:
  "phase p = RUN \<Longrightarrow>
   apply_async_all p tasks =
     Inr ([length (taskqueue p)..<length (taskqueue p) + length tasks],
          p\<lparr>taskqueue := taskqueue p @ tasks\<rparr>)"
proof (induction tasks arbitrary: p)
  case Nil
  then show ?case by simp
next
  case (Cons a tasks)
  have "phase (p\<lparr>taskqueue := taskqueue p @ [a]\<rparr>) = RUN" using Cons.prems by simp
  moreover have "[length (taskqueue p)..<length (taskqueue p) + length (a # tasks)]
      = length (taskqueue p) # [Suc (length (taskqueue p))..<Suc (length (taskqueue p)) + length tasks]"
    by (subst upt_rec) simp
  ultimately show ?case
    using Cons.IH [of "p\<lparr>taskqueue := taskqueue p @ [a]\<rparr>"] Cons.prems
    by (simp add: apply_async_def del: upt_Suc)
qed

lemma pool_work_eq:
  "pool_work f pick p =
     p\<lparr>cache := (\<lambda>j. if j < length (taskqueue p) \<and> cache p j = None
                      then Some (f (taskqueue p ! j)) else cache p j)\<rparr>"
proof (induction f pick p rule: pool_work.induct)
  case (1 f pick p)
  show ?case
  proof (cases "pending p = []")
    case True
    then have "\<And>j. j < length (taskqueue p) \<Longrightarrow> cache p j \<noteq> None"
      by (auto simp: pending_def filter_empty_conv)
    then have "(\<lambda>j. if j < length (taskqueue p) \<and> cache p j = None
                      then Some (f (taskqueue p ! j)) else cache p j) = cache p"
      by (intro ext) auto
    with True show ?thesis by (subst pool_work.simps) simp
  next
    case False
    define j0 where "j0 = pending p ! (pick p mod length (pending p))"
    have "j0 \<in> set (pending p)" using False by (simp add: j0_def)
    then have j0: "j0 < length (taskqueue p)" "cache p j0 = None"
      by (auto simp: pending_def)
    have "pool_work f pick p = pool_work f pick (finish_job f j0 p)"
      using False by (subst pool_work.simps) (simp add: j0_def)
    also have "\<dots> = (finish_job f j0 p)\<lparr>cache := (\<lambda>j. if j < length (taskqueue (finish_job f j0 p))
                          \<and> cache (finish_job f j0 p) j = None
                      then Some (f (taskqueue (finish_job f j0 p) ! j))
                      else cache (finish_job f j0 p) j)\<rparr>"
      using "1.IH" [OF False] unfolding j0_def by simp
    also have "\<dots> = p\<lparr>cache := (\<lambda>j. if j < length (taskqueue p) \<and> cache p j = None
                      then Some (f (taskqueue p ! j)) else cache p j)\<rparr>"
    proof -
      have "(\<lambda>j. if j < length (taskqueue (finish_job f j0 p))
                          \<and> cache (finish_job f j0 p) j = None
                      then Some (f (taskqueue (finish_job f j0 p) ! j))
                      else cache (finish_job f j0 p) j)
          = (\<lambda>j. if j < length (taskqueue p) \<and> cache p j = None
                      then Some (f (taskqueue p ! j)) else cache p j)"
        using j0 by (intro ext) (auto simp: finish_job_def)
      then show ?thesis by (simp add: finish_job_def)
    qed
    finally show ?thesis .
  qed
qed

lemma get_all_finished:
  assumes "\<And>j. j \<in> set js \<Longrightarrow> cache p j = Some (f (taskqueue p ! j))"
  shows "get_all p js = Some (first_error (map (\<lambda>j. f (taskqueue p ! j)) js))"
  using assms
proof (induction js)
  case Nil
  show ?case by simp
next
  case (Cons j js)
  then show ?case
    by (cases "f (taskqueue p ! j)") (auto split: sum.splits)
qed

lemma map_nth_upt: "map (\<lambda>j. f (xs ! j)) [0..<length xs] = map f xs"
  by (simp add: map_nth flip: map_map [unfolded comp_def])

lemma direct_submit_eq:
  fixes f :: "'a \<Rightarrow> py_error + 'r"
  assumes "1 \<le> NumberOfWorkers"
  shows "direct_submit f pick NumberOfWorkers tasks =
     (case first_error (map f tasks) of
        Inl e \<Rightarrow> Some (Inl e)
      | Inr vs \<Rightarrow>
          Some (Inr (vs, \<lparr>processes = 0, phase = CLOSE, taskqueue = tasks,
             cache = (\<lambda>j. if j < length tasks then Some (f (tasks ! j)) else None)\<rparr>)))"
proof -
  let ?p0 = "\<lparr>processes = nat NumberOfWorkers, phase = RUN, taskqueue = [], cache = Map.empty\<rparr>
     :: ('a, 'r) pool"
  let ?p1 = "?p0\<lparr>taskqueue := tasks\<rparr>"
  let ?p2 = "?p1\<lparr>cache := (\<lambda>j. if j < length tasks then Some (f (tasks ! j)) else None)\<rparr>"
  have pool: "Pool NumberOfWorkers = Inr ?p0" using assms by (simp add: Pool_def)
  have sub: "apply_async_all ?p0 tasks = Inr ([0..<length tasks], ?p1)"
    using apply_async_all_RUN [of ?p0 tasks] by simp
  have work: "pool_work f pick ?p1 = ?p2"
    by (simp add: pool_work_eq cong: if_cong)
  have "get_all ?p2 [0..<length tasks]
      = Some (first_error (map (\<lambda>j. f (taskqueue ?p2 ! j)) [0..<length tasks]))"
    by (rule get_all_finished) simp
  then have gets: "get_all ?p2 [0..<length tasks] = Some (first_error (map f tasks))"
    by (simp add: map_nth_upt)
  show ?thesis
    unfolding direct_submit_def pool using sub work gets
    by (simp add: close_def join_def split: sum.splits)
qed

lemma first_error_Inr: "first_error (map (\<lambda>t. Inr (g t)) tasks) = Inr (map g tasks)"
  by (induction tasks) auto


text \<open>
  C2. In direct-submit mode the returned list is in submission order, whatever the order in
  which the workers finish the jobs (the scheduler \<open>pick\<close>): for every pool of at least one
  worker and every list of tasks, \<open>Output\<close> is the list of the results of the tasks in the
  order of submission (or the exception of the first task, in that order, that raises). For
  \<open>UsePool\<close> the identifiers of \<open>Output\<close> are \<open>0, ..., NumberOfTasks - 1\<close> in this order.
  Tasks with identifiers \<open>1..5\<close> and \<open>compute(payload) = payload * payload\<close> on one worker
  return \<open>[(1,1),(2,4),(3,9),(4,16),(5,25)]\<close>.
\<close>

theorem direct_submit_preserves_order:
  fixes g :: "'a \<Rightarrow> 'r" and f :: "'b \<Rightarrow> py_error + 'c"
    and pick3 :: "(int \<times> int, int \<times> int) pool \<Rightarrow> nat"
  assumes "1 \<le> NumberOfWorkers"
  shows "map_option (map_sum id fst) (direct_submit (\<lambda>t. Inr (g t)) pick NumberOfWorkers tasks)
           = Some (Inr (map g tasks))
     \<and> map_option (map_sum id fst) (direct_submit f pick1 NumberOfWorkers tasks1)
           = Some (first_error (map f tasks1))
     \<and> (WeightOfComputation \<noteq> 0 \<longrightarrow>
          (\<exists>Output. UsePool rnd pick2 NumberOfWorkers NumberOfTasks WeightOfComputation
                       = Some (Inr Output)
                   \<and> map fst Output = range_py 0 NumberOfTasks))
     \<and> map_option (map_sum id fst)
          (direct_submit (\<lambda>(payload, i). Inr (i, payload * payload)) pick3 1
             [(1, 1), (2, 2), (3, 3), (4, 4), (5, 5)])
           = Some (Inr [(1, 1), (2, 4), (3, 9), (4, 16), (5, 25)])"
proof (intro conjI impI)
  show "map_option (map_sum id fst) (direct_submit (\<lambda>t. Inr (g t)) pick NumberOfWorkers tasks)
           = Some (Inr (map g tasks))"
    by (simp add: direct_submit_eq [OF assms] first_error_Inr)
  show "map_option (map_sum id fst) (direct_submit f pick1 NumberOfWorkers tasks1)
           = Some (first_error (map f tasks1))"
    by (simp add: direct_submit_eq [OF assms] split: sum.splits)
  show "map_option (map_sum id fst)
          (direct_submit (\<lambda>(payload, i). Inr (i, payload * payload)) pick3 1
             [(1, 1), (2, 2), (3, 3), (4, 4), (5, 5)])
           = Some (Inr [(1, 1), (2, 4), (3, 9), (4, 16), (5, 25)])"
    by (simp add: direct_submit_eq)
next
  assume W: "WeightOfComputation \<noteq> 0"
  define g where "g i = (i, snd (projr (CPUHeavyFunction rnd WeightOfComputation i)))" for i :: int
  have "CPUHeavyFunction rnd WeightOfComputation i = Inr (g i)" for i
    using CPUHeavyFunction_id [OF W, of rnd i] by (auto simp: g_def)
  then have eq: "map (\<lambda>(n, i). CPUHeavyFunction rnd n i)
          (map (\<lambda>i. (WeightOfComputation, i)) (range_py 0 NumberOfTasks))
        = map (\<lambda>i. Inr (g i)) (range_py 0 NumberOfTasks)"
    by simp
  have "UsePool rnd pick2 NumberOfWorkers NumberOfTasks WeightOfComputation
        = Some (Inr (map g (range_py 0 NumberOfTasks)))"
    unfolding UsePool_def direct_submit_eq [OF assms] eq first_error_Inr by simp
  moreover have "map fst (map g (range_py 0 NumberOfTasks)) = range_py 0 NumberOfTasks"
    by (simp add: g_def comp_def)
  ultimately show "\<exists>Output. UsePool rnd pick2 NumberOfWorkers NumberOfTasks WeightOfComputation
                       = Some (Inr Output)
                   \<and> map fst Output = range_py 0 NumberOfTasks"
    by blast
qed

lemma UsePool_example:
  "UsePool (\<lambda>ID i. (1 / 2, real_of_int i / 2)) (\<lambda>p. 1) 2 3 4 = Some (Inr [(0, 2), (1, 2), (2, 2)])"
  by code_simp

theorem direct_submit_preserves_order_witness:
  "(1::int) \<le> 2 \<and> (4::int) \<noteq> 0
   \<and> UsePool (\<lambda>ID i. (1 / 2, real_of_int i / 2)) (\<lambda>p. 1) 2 3 4 = Some (Inr [(0, 2), (1, 2), (2, 2)])
   \<and> map fst [(0::int, 2::real), (1, 2), (2, 2)] = range_py 0 3"
proof -
  have "\<exists>Output. UsePool (\<lambda>ID i. (1 / 2, real_of_int i / 2)) (\<lambda>p. 1) 2 3 4 = Some (Inr Output)
                   \<and> map fst Output = range_py 0 3"
    using direct_submit_preserves_order
      [of 2 id "\<lambda>p. 0" "[]::nat list" "\<lambda>t::nat. Inr t :: py_error + nat" "\<lambda>p. 0" "[]" 4
          "\<lambda>ID i. (1 / 2, real_of_int i / 2)" "\<lambda>p. 1" 3 "\<lambda>p. 0"]
    by simp
  then show ?thesis using UsePool_example by auto
qed

section \<open>Properties of the shared queues\<close>

subsection \<open>Traces, steps and the invariant\<close>

lemma gets_append: "gets (xs @ ys) = gets xs @ gets ys"
  by (induction xs rule: gets.induct) auto

lemma computes_append: "computes (xs @ ys) = computes xs @ computes ys"
  by (induction xs rule: computes.induct) auto

lemma puts_append: "puts (xs @ ys) = puts xs @ puts ys"
  by (induction xs rule: puts.induct) auto

lemma empties_append: "empties (xs @ ys) = empties xs @ empties ys"
  by (induction xs rule: empties.induct) auto

lemma collects_append: "collects (xs @ ys) = collects xs @ collects ys"
  by (induction xs rule: collects.induct) auto

lemmas trace_append =
  gets_append computes_append puts_append empties_append collects_append

lemma successes_append: "successes body (xs @ ys) = successes body xs @ successes body ys"
  by (induction xs rule: successes.induct) (auto split: option.splits sum.splits)

lemma successes_mset:
  assumes "mset xs = mset ys"
  shows "mset (successes body xs) = mset (successes body ys)"
proof -
  have eq: "mset (successes body gs)
      = sum_mset (image_mset (\<lambda>g. mset (successes body [g])) (mset gs))" for gs
  proof (induction gs)
    case Nil
    show ?case by simp
  next
    case (Cons g gs)
    obtain w x where g: "g = (w, x)" by (cases g)
    show ?case
      unfolding g using Cons by (simp split: option.splits sum.splits)
  qed
  show ?thesis by (simp only: eq [of xs] eq [of ys] assms)
qed

lemma holding_update:
  "w < length ps \<Longrightarrow>
   mset (holding i (ps[w := p])) + mset (holding (i + w) [ps ! w])
     = mset (holding i ps) + mset (holding (i + w) [p])"
proof (induction ps arbitrary: i w)
  case Nil
  then show ?case by simp
next
  case (Cons a ps)
  show ?case
  proof (cases w)
    case 0
    then show ?thesis by (cases a; cases p) auto
  next
    case (Suc v)
    with Cons.prems have "v < length ps" by simp
    from Cons.IH [OF this, of "Suc i" ] Suc show ?thesis
      by (cases a) auto
  qed
qed

lemma taken_update:
  "w < length ps \<Longrightarrow>
   mset (taken i (ps[w := p])) + mset (taken (i + w) [ps ! w])
     = mset (taken i ps) + mset (taken (i + w) [p])"
proof (induction ps arbitrary: i w)
  case Nil
  then show ?case by simp
next
  case (Cons a ps)
  show ?case
  proof (cases w)
    case 0
    then show ?thesis by (cases a; cases p) auto
  next
    case (Suc v)
    with Cons.prems have "v < length ps" by simp
    from Cons.IH [OF this, of "Suc i" ] Suc show ?thesis
      by (cases a) auto
  qed
qed

lemma taken_member:
  "w < length ps \<Longrightarrow> ps ! w = AtCompute x \<Longrightarrow> (i + w, x) \<in> set (taken i ps)"
proof (induction ps arbitrary: i w)
  case Nil
  then show ?case by simp
next
  case (Cons a ps)
  show ?case
  proof (cases w)
    case 0
    with Cons.prems show ?thesis by simp
  next
    case (Suc v)
    with Cons.prems have "(Suc i + v, x) \<in> set (taken (Suc i) ps)"
      by (intro Cons.IH) simp_all
    with Suc show ?thesis by (cases a) auto
  qed
qed

lemma holding_idle: "(\<And>r. AtPut r \<notin> set ps) \<Longrightarrow> holding i ps = []"
proof (induction ps arbitrary: i)
  case Nil
  show ?case by simp
next
  case (Cons a ps)
  then show ?case by (cases a) auto
qed

lemma taken_idle: "(\<And>x. AtCompute x \<notin> set ps) \<Longrightarrow> taken i ps = []"
proof (induction ps arbitrary: i)
  case Nil
  show ?case by simp
next
  case (Cons a ps)
  then show ?case by (cases a) auto
qed

lemma holding_computed: "holding w [computed (body w x)] = successes body [(w, x)]"
  by (cases "body w x" rule: computed.cases) auto

lemma taken_computed: "taken w [computed c] = []"
  by (cases c rule: computed.cases) auto

lemma computed_not_Returned [simp]: "computed c \<noteq> Returned"
  by (cases c rule: computed.cases) auto

lemma computed_not_AtGet [simp]: "computed c \<noteq> AtGet"
  by (cases c rule: computed.cases) auto

lemma computed_running: "running (computed c) \<longleftrightarrow> (\<exists>r. c = Some (Inr r))"
  by (cases c rule: computed.cases) auto

lemma step_cases [consumes 1, case_names parent empty get compute put]:
  assumes "a \<in> set (enabled n s)"
  obtains
    r q where "a = Parent" and "OutputQueue s = r # q" and "length (Output s) < n"
      and "step body ready a s
            = s\<lparr>OutputQueue := q, Output := Output s @ [r], Trace := Trace s @ [Collected r]\<rparr>"
  | w where "a = Child w" and "w < length (Workers s)" and "Workers s ! w = AtGet"
      and "InputQueue s = [] \<or> \<not> ready s"
      and "step body ready a s
            = s\<lparr>Workers := (Workers s)[w := Returned], Trace := Trace s @ [GetEmpty w]\<rparr>"
  | w x q where "a = Child w" and "w < length (Workers s)" and "Workers s ! w = AtGet"
      and "InputQueue s = x # q" and "ready s"
      and "step body ready a s
            = s\<lparr>InputQueue := q, Workers := (Workers s)[w := AtCompute x],
                Trace := Trace s @ [Get w x]\<rparr>"
  | w x where "a = Child w" and "w < length (Workers s)" and "Workers s ! w = AtCompute x"
      and "step body ready a s
            = s\<lparr>Workers := (Workers s)[w := computed (body w x)],
                Trace := Trace s @ [Compute w x]\<rparr>"
  | w r where "a = Child w" and "w < length (Workers s)" and "Workers s ! w = AtPut r"
      and "step body ready a s
            = s\<lparr>OutputQueue := OutputQueue s @ [r], Workers := (Workers s)[w := AtGet],
                Trace := Trace s @ [Put w r]\<rparr>"
proof (cases a)
  case Parent
  with assms have "OutputQueue s \<noteq> []" and "length (Output s) < n"
    by (auto simp: enabled_def split: if_splits)
  then obtain r q where "OutputQueue s = r # q" by (cases "OutputQueue s") auto
  with Parent \<open>length (Output s) < n\<close> show ?thesis
    by (intro that(1) [of r q]) (auto simp: parent_step_def)
next
  case (Child w)
  with assms have w: "w < length (Workers s)" and run: "running (Workers s ! w)"
    by (auto simp: enabled_def split: if_splits)
  show ?thesis
  proof (cases "Workers s ! w")
    case AtGet
    show ?thesis
    proof (cases rule: get_nowait_cases [of "ready s" "InputQueue s"])
      case 1
      with Child w AtGet show ?thesis
        by (intro that(2) [of w]) (auto simp: worker_step_def)
    next
      case (2 x q)
      with Child w AtGet show ?thesis
        by (intro that(3) [of w x q]) (auto simp: worker_step_def)
    qed
  next
    case (AtCompute x)
    with Child w show ?thesis
      by (intro that(4) [of w x]) (auto simp: worker_step_def)
  next
    case (AtPut r)
    with Child w show ?thesis
      by (intro that(5) [of w r]) (auto simp: worker_step_def)
  qed (use run in auto)
qed

lemma set_update_cases: "x \<in> set (xs[i := y]) \<Longrightarrow> x = y \<or> x \<in> set xs"
  using set_update_subset_insert [of xs i y] by auto

lemma consistent_step:
  assumes inv: "consistent body n tasks W s" and a: "a \<in> set (enabled n s)"
  shows "consistent body n tasks W (step body ready a s)"
  using a
proof (cases rule: step_cases [where body = body and ready = ready])
  case (parent r q)
  with inv show ?thesis
    by (auto simp: consistent_def trace_append)
next
  case (empty w)
  from inv have len: "length (Workers s) = W" by (simp add: consistent_def)
  have hold: "mset (holding 0 ((Workers s)[w := Returned])) = mset (holding 0 (Workers s))"
    using holding_update [OF empty(2), of 0 Returned] empty(3) by simp
  have take: "mset (taken 0 ((Workers s)[w := Returned])) = mset (taken 0 (Workers s))"
    using taken_update [OF empty(2), of 0 Returned] empty(3) by simp
  have count: "\<forall>v<W. count_list (empties (Trace s) @ [w]) v
        = (if (Workers s)[w := Returned] ! v = Returned then 1 else 0)"
    using inv empty(2,3) by (auto simp: consistent_def nth_list_update)
  have fail: "\<forall>v<W. \<not> running ((Workers s)[w := Returned] ! v)
            \<and> (Workers s)[w := Returned] ! v \<noteq> Returned \<longrightarrow>
          (\<exists>y. (v, y) \<in> set (gets (Trace s @ [GetEmpty w])) \<and> (\<forall>r. body v y \<noteq> Some (Inr r)))"
    using inv empty(2,3) by (auto simp: consistent_def nth_list_update trace_append)
  from inv hold take count fail show ?thesis
    unfolding empty(5) by (simp add: consistent_def trace_append)
next
  case (get w x q)
  from inv have len: "length (Workers s) = W" by (simp add: consistent_def)
  have tasks: "map snd (gets (Trace s)) @ x # q = tasks"
    using inv get(4) by (simp add: consistent_def)
  have hold: "mset (holding 0 ((Workers s)[w := AtCompute x])) = mset (holding 0 (Workers s))"
    using holding_update [OF get(2), of 0 "AtCompute x"] get(3) by simp
  have take: "mset (taken 0 ((Workers s)[w := AtCompute x]))
      = mset (taken 0 (Workers s)) + {#(w, x)#}"
    using taken_update [OF get(2), of 0 "AtCompute x"] get(3) by simp
  have took: "mset (computes (Trace s)) + mset (taken 0 ((Workers s)[w := AtCompute x]))
      = mset (gets (Trace s) @ [(w, x)])"
    using inv take by (simp add: consistent_def)
  have count: "\<forall>v<W. count_list (empties (Trace s)) v
        = (if (Workers s)[w := AtCompute x] ! v = Returned then 1 else 0)"
    using inv get(2,3) by (auto simp: consistent_def nth_list_update)
  have fail: "\<forall>v<W. \<not> running ((Workers s)[w := AtCompute x] ! v)
            \<and> (Workers s)[w := AtCompute x] ! v \<noteq> Returned \<longrightarrow>
          (\<exists>y. (v, y) \<in> set (gets (Trace s @ [Get w x])) \<and> (\<forall>r. body v y \<noteq> Some (Inr r)))"
    using inv get(2,3) by (auto simp: consistent_def nth_list_update trace_append)
  from inv tasks hold took count fail get(2) show ?thesis
    unfolding get(6) by (simp add: consistent_def trace_append)
next
  case (compute w x)
  from inv have len: "length (Workers s) = W" by (simp add: consistent_def)
  have "(w, x) \<in> set (taken 0 (Workers s))"
    using taken_member [OF compute(2,3), of 0] by simp
  moreover have "mset (computes (Trace s) @ taken 0 (Workers s)) = mset (gets (Trace s))"
    using inv by (simp add: consistent_def)
  then have "set (computes (Trace s) @ taken 0 (Workers s)) = set (gets (Trace s))"
    by (rule mset_eq_setD)
  ultimately have x: "(w, x) \<in> set (gets (Trace s))" by auto
  have hold: "mset (holding 0 ((Workers s)[w := computed (body w x)]))
      = mset (holding 0 (Workers s)) + mset (successes body [(w, x)])"
    using holding_update [OF compute(2), of 0 "computed (body w x)"] compute(3)
    by (simp add: holding_computed)
  have held: "mset (puts (Trace s)) + mset (holding 0 ((Workers s)[w := computed (body w x)]))
      = mset (successes body (computes (Trace s) @ [(w, x)]))"
    using inv hold by (simp add: consistent_def successes_append)
  have take: "mset (taken 0 ((Workers s)[w := computed (body w x)])) + {#(w, x)#}
      = mset (taken 0 (Workers s))"
    using taken_update [OF compute(2), of 0 "computed (body w x)"] compute(3)
    by (simp add: taken_computed)
  have took: "mset (computes (Trace s) @ [(w, x)])
        + mset (taken 0 ((Workers s)[w := computed (body w x)]))
      = mset (gets (Trace s))"
    using inv take [symmetric] by (simp add: consistent_def)
  have count: "\<forall>v<W. count_list (empties (Trace s)) v
        = (if (Workers s)[w := computed (body w x)] ! v = Returned then 1 else 0)"
    using inv compute(2,3) by (auto simp: consistent_def nth_list_update)
  have fail: "\<forall>v<W. \<not> running ((Workers s)[w := computed (body w x)] ! v)
            \<and> (Workers s)[w := computed (body w x)] ! v \<noteq> Returned \<longrightarrow>
          (\<exists>y. (v, y) \<in> set (gets (Trace s @ [Compute w x])) \<and> (\<forall>r. body v y \<noteq> Some (Inr r)))"
  proof (intro allI impI)
    fix v assume v: "v < W"
      and stop: "\<not> running ((Workers s)[w := computed (body w x)] ! v)
            \<and> (Workers s)[w := computed (body w x)] ! v \<noteq> Returned"
    show "\<exists>y. (v, y) \<in> set (gets (Trace s @ [Compute w x]))
        \<and> (\<forall>r. body v y \<noteq> Some (Inr r))"
    proof (cases "v = w")
      case True
      with stop compute(2) have "\<not> running (computed (body w x) :: ('a, 'b) process)" by simp
      then have "\<forall>r. body w x \<noteq> Some (Inr r)" by (simp add: computed_running)
      with x True show ?thesis by (auto simp: trace_append)
    next
      case False
      with stop v inv show ?thesis by (auto simp: consistent_def trace_append)
    qed
  qed
  from inv held took count fail compute(2) show ?thesis
    unfolding compute(4) by (simp add: consistent_def trace_append)
next
  case (put w r)
  from inv have len: "length (Workers s) = W" by (simp add: consistent_def)
  have hold: "mset (holding 0 ((Workers s)[w := AtGet])) + {#(w, r)#} = mset (holding 0 (Workers s))"
    using holding_update [OF put(2), of 0 AtGet] put(3) by simp
  have held: "mset (puts (Trace s) @ [(w, r)]) + mset (holding 0 ((Workers s)[w := AtGet]))
      = mset (successes body (computes (Trace s)))"
    using inv hold [symmetric] by (simp add: consistent_def)
  have take: "mset (taken 0 ((Workers s)[w := AtGet])) = mset (taken 0 (Workers s))"
    using taken_update [OF put(2), of 0 AtGet] put(3) by simp
  have count: "\<forall>v<W. count_list (empties (Trace s)) v
        = (if (Workers s)[w := AtGet] ! v = Returned then 1 else 0)"
    using inv put(2,3) by (auto simp: consistent_def nth_list_update)
  have fail: "\<forall>v<W. \<not> running ((Workers s)[w := AtGet] ! v)
            \<and> (Workers s)[w := AtGet] ! v \<noteq> Returned \<longrightarrow>
          (\<exists>y. (v, y) \<in> set (gets (Trace s @ [Put w r])) \<and> (\<forall>r. body v y \<noteq> Some (Inr r)))"
    using inv put(2,3) by (auto simp: consistent_def nth_list_update trace_append)
  from inv held take count fail show ?thesis
    unfolding put(4) by (simp add: consistent_def trace_append)
qed

lemma consistent_start: "consistent body n tasks W (start tasks W)"
  by (simp add: consistent_def start_def holding_idle taken_idle)

lemma run_invariant:
  assumes "I s" and "\<And>s a. I s \<Longrightarrow> a \<in> set (enabled n s) \<Longrightarrow> I (step body ready a s)"
  shows "I (run body n pick ready s)"
  using assms
proof (induction body n pick ready s rule: run.induct)
  case (1 body n pick ready s)
  show ?case
  proof (cases "enabled n s = []")
    case True
    with "1.prems"(1) show ?thesis by (subst run.simps) simp
  next
    case False
    then have "enabled n s ! (pick s mod length (enabled n s)) \<in> set (enabled n s)" by simp
    with "1.prems"(1)
    have "I (step body ready (enabled n s ! (pick s mod length (enabled n s))) s)"
      by (rule "1.prems"(2))
    from "1.IH" [OF False this "1.prems"(2)] False show ?thesis
      by (subst run.simps) simp
  qed
qed

lemma run_final: "enabled n (run body n pick ready s) = []"
proof (induction body n pick ready s rule: run.induct)
  case (1 body n pick ready s)
  then show ?case by (subst run.simps) simp
qed

lemma run_steps_invariant:
  assumes "I s" and "\<And>s a. I s \<Longrightarrow> a \<in> set (enabled n s) \<Longrightarrow> I (step body ready a s)"
  shows "I (run_steps k body n pick ready s)"
  using assms(1)
proof (induction k arbitrary: s)
  case 0
  then show ?case by simp
next
  case (Suc k)
  show ?case
  proof (cases "enabled n s = []")
    case True
    with Suc.prems show ?thesis by simp
  next
    case False
    then have "enabled n s ! (pick s mod length (enabled n s)) \<in> set (enabled n s)" by simp
    with Suc.prems
    have "I (step body ready (enabled n s ! (pick s mod length (enabled n s))) s)"
      by (rule assms(2))
    with False Suc.IH show ?thesis by simp
  qed
qed

lemma consistent_run: "consistent body n tasks W (run body n pick ready (start tasks W))"
  by (rule run_invariant [where I = "consistent body n tasks W"])
    (simp_all add: consistent_start consistent_step)

lemma consistent_run_steps:
  "consistent body n tasks W (run_steps k body n pick ready (start tasks W))"
  by (rule run_steps_invariant [where I = "consistent body n tasks W"])
    (simp_all add: consistent_start consistent_step)

subsection \<open>The end of an execution\<close>

lemma consistentD:
  assumes "consistent body n tasks W s"
  shows "length (Workers s) = W"
    and "map snd (gets (Trace s)) @ InputQueue s = tasks"
    and "list_all (\<lambda>w. w < W) (map fst (gets (Trace s)))"
    and "map snd (puts (Trace s)) = Output s @ OutputQueue s"
    and "collects (Trace s) = Output s"
    and "length (Output s) \<le> n"
    and "mset (computes (Trace s)) + mset (taken 0 (Workers s)) = mset (gets (Trace s))"
    and "mset (puts (Trace s)) + mset (holding 0 (Workers s))
          = mset (successes body (computes (Trace s)))"
    and "\<And>w. w < W \<Longrightarrow> count_list (empties (Trace s)) w = (if Workers s ! w = Returned then 1 else 0)"
    and "\<And>w. w < W \<Longrightarrow> \<not> running (Workers s ! w) \<Longrightarrow> Workers s ! w \<noteq> Returned \<Longrightarrow>
          \<exists>x. (w, x) \<in> set (gets (Trace s)) \<and> (\<forall>r. body w x \<noteq> Some (Inr r))"
  using assms unfolding consistent_def by blast+

lemma final_not_running:
  assumes "enabled n s = []" and "w < length (Workers s)"
  shows "\<not> running (Workers s ! w)"
proof
  assume "running (Workers s ! w)"
  with assms(2) have "w \<in> set (filter (\<lambda>w. running (Workers s ! w)) [0..<length (Workers s)])"
    by simp
  with assms(1) show False by (simp add: enabled_def)
qed

lemma final_holding:
  assumes "enabled n s = []"
  shows "holding 0 (Workers s) = []"
proof (rule holding_idle)
  fix r
  show "AtPut r \<notin> set (Workers s)"
  proof
    assume "AtPut r \<in> set (Workers s)"
    then obtain w where "w < length (Workers s)" "Workers s ! w = AtPut r"
      by (auto simp: in_set_conv_nth)
    with final_not_running [OF assms, of w] show False by simp
  qed
qed

lemma final_taken:
  assumes "enabled n s = []"
  shows "taken 0 (Workers s) = []"
proof (rule taken_idle)
  fix x
  show "AtCompute x \<notin> set (Workers s)"
  proof
    assume "AtCompute x \<in> set (Workers s)"
    then obtain w where "w < length (Workers s)" "Workers s ! w = AtCompute x"
      by (auto simp: in_set_conv_nth)
    with final_not_running [OF assms, of w] show False by simp
  qed
qed

lemma final_output:
  assumes "enabled n s = []" and "consistent body n tasks W s"
  shows "Output s = take n (map snd (puts (Trace s)))"
proof -
  note puts = consistentD(4) [OF assms(2)] and le = consistentD(6) [OF assms(2)]
  from assms(1) have "\<not> (length (Output s) < n \<and> OutputQueue s \<noteq> [])"
    by (auto simp: enabled_def split: if_splits)
  with le have "length (Output s) = n \<or> OutputQueue s = []" by auto
  with le puts show ?thesis by auto
qed

lemma final_computes:
  assumes "enabled n s = []" and "consistent body n tasks W s"
  shows "mset (computes (Trace s)) = mset (gets (Trace s))"
  using consistentD(7) [OF assms(2)] final_taken [OF assms(1)] by simp

lemma final_puts:
  assumes "enabled n s = []" and "consistent body n tasks W s"
  shows "mset (puts (Trace s)) = mset (successes body (gets (Trace s)))"
proof -
  have "mset (puts (Trace s)) = mset (successes body (computes (Trace s)))"
    using consistentD(8) [OF assms(2)] final_holding [OF assms(1)] by simp
  also have "\<dots> = mset (successes body (gets (Trace s)))"
    by (rule successes_mset) (rule final_computes [OF assms])
  finally show ?thesis .
qed

lemma returned_drained_step:
  assumes ready: "\<And>s. ready s"
    and inv: "Returned \<in> set (Workers s) \<longrightarrow> InputQueue s = []"
    and a: "a \<in> set (enabled n s)"
  shows "Returned \<in> set (Workers (step body ready a s))
     \<longrightarrow> InputQueue (step body ready a s) = []"
  using a
proof (cases rule: step_cases [where body = body and ready = ready])
  case (parent r q)
  with inv show ?thesis by simp
next
  case (empty w)
  with ready have "InputQueue s = []" by simp
  then show ?thesis unfolding empty(5) by simp
next
  case (get w x q)
  with inv have "Returned \<notin> set (Workers s)" by auto
  then have "Returned \<notin> set ((Workers s)[w := AtCompute x])"
    using set_update_cases [of Returned "Workers s" w "AtCompute x"] by auto
  then show ?thesis unfolding get(6) by simp
next
  case (compute w x)
  have "Returned \<in> set ((Workers s)[w := computed (body w x)]) \<Longrightarrow> Returned \<in> set (Workers s)"
    using set_update_cases [of Returned "Workers s" w "computed (body w x)"]
      computed_not_Returned [of "body w x"] by metis
  with inv show ?thesis unfolding compute(4) by auto
next
  case (put w r)
  have "Returned \<in> set ((Workers s)[w := AtGet]) \<Longrightarrow> Returned \<in> set (Workers s)"
    using set_update_cases [of Returned "Workers s" w AtGet] by auto
  with inv show ?thesis unfolding put(4) by auto
qed

lemma successes_all:
  assumes "\<And>w x. (w, x) \<in> set gs \<Longrightarrow> \<exists>r. body w x = Some (Inr r) \<and> rid r = tid x"
  shows "map (rid \<circ> snd) (successes body gs) = map (tid \<circ> snd) gs"
  using assms
proof (induction gs)
  case Nil
  show ?case by simp
next
  case (Cons g gs)
  obtain w x where g: "g = (w, x)" by (cases g)
  from Cons.prems [of w x] g obtain r where r: "body w x = Some (Inr r)" "rid r = tid x" by auto
  have "map (rid \<circ> snd) (successes body gs) = map (tid \<circ> snd) gs"
    by (rule Cons.IH) (use Cons.prems in auto)
  with r g show ?case by (simp add: comp_def)
qed

text \<open>
  When every \<open>get(block=False)\<close> finds the lock free and the pipe fed, and no computation
  fails, every execution with at least one worker ends with all tasks taken and all results
  collected.
\<close>

lemma shared_queue_complete:
  fixes body :: "nat \<Rightarrow> 'a \<Rightarrow> (py_error + 'r) option"
  assumes W: "0 < W"
    and ready: "\<And>s. ready s"
    and success: "\<And>w x. w < W \<Longrightarrow> x \<in> set tasks \<Longrightarrow> \<exists>r. body w x = Some (Inr r) \<and> rid r = tid x"
    and s: "s = run body (length tasks) pick ready (start tasks W)"
  shows "set (Workers s) = {Returned}" and "InputQueue s = []" and "OutputQueue s = []"
    and "map snd (gets (Trace s)) = tasks"
    and "length (Output s) = length tasks"
    and "mset (map rid (Output s)) = mset (map tid tasks)"
proof -
  have inv: "consistent body (length tasks) tasks W s"
    unfolding s by (rule consistent_run)
  have fin: "enabled (length tasks) s = []"
    unfolding s by (rule run_final)
  have drained: "Returned \<in> set (Workers s) \<longrightarrow> InputQueue s = []"
    unfolding s
    by (rule run_invariant [where I = "\<lambda>s. Returned \<in> set (Workers s) \<longrightarrow> InputQueue s = []"])
      (simp_all add: start_def returned_drained_step [OF ready])
  note len = consistentD(1) [OF inv]
  have ret: "Workers s ! w = Returned" if w: "w < W" for w
  proof (rule ccontr)
    assume "Workers s ! w \<noteq> Returned"
    moreover have "\<not> running (Workers s ! w)"
      using final_not_running [OF fin] w len by simp
    ultimately obtain x where x: "(w, x) \<in> set (gets (Trace s))"
      and "\<forall>r. body w x \<noteq> Some (Inr r)"
      using consistentD(10) [OF inv w] by blast
    from x have "snd (w, x) \<in> snd ` set (gets (Trace s))" by (rule imageI)
    then have "x \<in> set (map snd (gets (Trace s)))" by simp
    with consistentD(2) [OF inv] have "x \<in> set tasks" by (metis Un_iff set_append)
    with success [OF w, of x] \<open>\<forall>r. body w x \<noteq> Some (Inr r)\<close> show False by auto
  qed
  then have "\<And>p. p \<in> set (Workers s) \<Longrightarrow> p = Returned"
    using len by (auto simp: in_set_conv_nth)
  moreover have "Workers s ! 0 \<in> set (Workers s)" using W len by simp
  ultimately show workers: "set (Workers s) = {Returned}"
    using ret [OF W] by auto
  then show iq: "InputQueue s = []" using drained by simp
  with consistentD(2) [OF inv] show gets: "map snd (gets (Trace s)) = tasks" by simp
  note who = consistentD(3) [OF inv]
  have ok: "\<exists>r. body w x = Some (Inr r) \<and> rid r = tid x" if "(w, x) \<in> set (gets (Trace s))" for w x
  proof -
    from that who have "w < W" by (force simp: list_all_iff)
    moreover from that gets have "x \<in> set tasks" by force
    ultimately show ?thesis by (rule success)
  qed
  have "mset (map rid (map snd (puts (Trace s))))
      = image_mset (rid \<circ> snd) (mset (puts (Trace s)))"
    by (simp add: comp_def)
  also have "\<dots> = image_mset (rid \<circ> snd) (mset (successes body (gets (Trace s))))"
    by (simp add: final_puts [OF fin inv])
  also have "\<dots> = mset (map (rid \<circ> snd) (successes body (gets (Trace s))))"
    by simp
  also have "\<dots> = mset (map (tid \<circ> snd) (gets (Trace s)))"
    using successes_all [of "gets (Trace s)" body rid tid] ok by simp
  also have "\<dots> = mset (map tid tasks)"
    using gets by (simp flip: map_map)
  finally have ids: "mset (map rid (map snd (puts (Trace s)))) = mset (map tid tasks)" .
  then have "size (mset (map rid (map snd (puts (Trace s))))) = size (mset (map tid tasks))"
    by simp
  then have n: "length (puts (Trace s)) = length tasks" by simp
  have out: "Output s = take (length tasks) (map snd (puts (Trace s)))"
    by (rule final_output [OF fin inv])
  with n show "length (Output s) = length tasks" by simp
  from out n have all: "Output s = map snd (puts (Trace s))" by simp
  with ids show "mset (map rid (Output s)) = mset (map tid tasks)" by simp
  from consistentD(4) [OF inv] all show "OutputQueue s = []" by simp
qed

lemma length_range_py: "length (range_py 0 N) = nat N"
proof (cases "0 \<le> N")
  case True
  then show ?thesis by (simp add: range_py_0)
next
  case False
  then show ?thesis by (simp add: range_py_def)
qed

lemma potential_enabled: "potential s = 0 \<Longrightarrow> enabled n s = []"
proof (rule ccontr)
  assume "potential s = 0" and "enabled n s \<noteq> []"
  then have "hd (enabled n s) \<in> set (enabled n s)" by simp
  from potential_step [OF this, of undefined undefined] \<open>potential s = 0\<close> show False by simp
qed

lemma run_steps_reaches:
  "potential s \<le> k \<Longrightarrow> run_steps k body n pick ready s = run body n pick ready s"
proof (induction k arbitrary: s)
  case 0
  then have "enabled n s = []" by (simp add: potential_enabled)
  then show ?case by (subst run.simps) simp
next
  case (Suc k)
  show ?case
  proof (cases "enabled n s = []")
    case True
    then show ?thesis by (subst run.simps) simp
  next
    case False
    let ?a = "enabled n s ! (pick s mod length (enabled n s))"
    from False have "?a \<in> set (enabled n s)" by simp
    from potential_step [OF this, of body ready] Suc.prems
    have "potential (step body ready ?a s) \<le> k"
      by simp
    from Suc.IH [OF this] False show ?thesis
      by (subst run.simps) simp
  qed
qed

lemma UseProcess_example:
  "UseProcess (\<lambda>ID i. (1 / 2, real_of_int i / 2)) (\<lambda>s. 1) (\<lambda>s. True) 2 3 4
     = Some [(0, 2), (1, 2), (2, 2)]"
  by code_simp

lemma UseProcess_example_trace:
  "Trace (UseProcess_system (\<lambda>ID i. (1 / 2, real_of_int i / 2)) (\<lambda>s. 1) (\<lambda>s. True) 2 3 4)
     = [Get 1 (4, 0), Compute 1 (4, 0), Put 1 (0, 2), Get 0 (4, 1), Compute 0 (4, 1),
        Put 0 (1, 2), Get 0 (4, 2), Compute 0 (4, 2), Put 0 (2, 2), GetEmpty 0, GetEmpty 1,
        Collected (0, 2), Collected (1, 2), Collected (2, 2)]"
  by code_simp


text \<open>
  C1. \<open>UseProcess(2, 3, 4)\<close>, no task failing, in the execution in which the first
  \<open>get(block=False)\<close> of each of the two workers raises \<open>Empty\<close> although the three tasks are
  queued (the read lock is held, or the feeder thread of the parent has not yet written the
  items into the pipe): both workers leave their loops, the three tasks stay in
  \<open>InputQueue\<close>, nothing is ever put into \<open>OutputQueue\<close>, and the list comprehension of the
  parent never completes. The drain does not return \<open>3\<close> results.
\<close>

theorem UseProcess_early_Empty:
  "UseProcess (\<lambda>ID i. (1 / 2, real_of_int i / 2)) (\<lambda>s. 0) (\<lambda>s. False) 2 3 4 = None
   \<and> UseProcess_system (\<lambda>ID i. (1 / 2, real_of_int i / 2)) (\<lambda>s. 0) (\<lambda>s. False) 2 3 4
       = \<lparr>InputQueue = [(4, 0), (4, 1), (4, 2)], OutputQueue = [],
          Workers = [Returned, Returned], Output = [], Trace = [GetEmpty 0, GetEmpty 1]\<rparr>"
  by code_simp

text \<open>
  C4. \<open>drain(n)\<close> is the list comprehension of \<open>n\<close> blocking \<open>get\<close> calls. In every state of
  every execution the collected list is a prefix, in arrival order, of the results deposited
  so far and has at most \<open>n\<close> elements, so the parent has not returned from the comprehension
  before \<open>n\<close> results were deposited. Every execution ends (after at most
  \<open>potential\<close> steps); at its end the collected list is the first \<open>n\<close> deposited
  results in arrival order, and the comprehension has returned exactly when at least \<open>n\<close>
  results were deposited: with fewer, the parent waits forever.
\<close>

theorem drain_waits_for_expected_count:
  fixes body :: "nat \<Rightarrow> 'a \<Rightarrow> (py_error + 'r) option"
  shows "(let s = run_steps k body n pick ready (start tasks W);
              deposited = map snd (puts (Trace s))
    in length (Output s) \<le> n \<and> length (Output s) \<le> length deposited
       \<and> Output s = take (length (Output s)) deposited)
   \<and> run_steps (potential (start tasks W :: ('a, 'r) system)) body n pick ready (start tasks W)
       = run body n pick ready (start tasks W)
   \<and> (let s = run body n pick ready (start tasks W); deposited = map snd (puts (Trace s))
      in Output s = take n deposited
         \<and> drained n s = (if n \<le> length deposited then Some (take n deposited) else None))"
proof (intro conjI)
  define s where "s = run_steps k body n pick ready (start tasks W)"
  have inv: "consistent body n tasks W s"
    unfolding s_def by (rule consistent_run_steps)
  have "length (map snd (puts (Trace s))) = length (Output s @ OutputQueue s)"
    by (simp only: consistentD(4) [OF inv])
  then have "length (Output s) \<le> length (puts (Trace s))" by simp
  with consistentD(4,6) [OF inv]
  show "let s = run_steps k body n pick ready (start tasks W);
            deposited = map snd (puts (Trace s))
    in length (Output s) \<le> n \<and> length (Output s) \<le> length deposited
       \<and> Output s = take (length (Output s)) deposited"
    by (simp add: Let_def flip: s_def)
next
  show "run_steps (potential (start tasks W :: ('a, 'r) system)) body n pick ready (start tasks W)
       = run body n pick ready (start tasks W)"
    by (rule run_steps_reaches) simp
next
  define s where "s = run body n pick ready (start tasks W)"
  have inv: "consistent body n tasks W s"
    unfolding s_def by (rule consistent_run)
  have fin: "enabled n s = []"
    unfolding s_def by (rule run_final)
  have out: "Output s = take n (map snd (puts (Trace s)))"
    by (rule final_output [OF fin inv])
  have "drained n s = (if n \<le> length (map snd (puts (Trace s)))
      then Some (take n (map snd (puts (Trace s)))) else None)"
    using out consistentD(6) [OF inv] by (auto simp: drained_def)
  with out show "let s = run body n pick ready (start tasks W);
          deposited = map snd (puts (Trace s))
      in Output s = take n deposited
         \<and> drained n s = (if n \<le> length deposited then Some (take n deposited) else None)"
    by (simp add: Let_def flip: s_def)
qed

text \<open>
  C5. Items \<open>[1, 2, 3]\<close> in the input queue and two workers of
  \<open>MultiprocessingDemonstrationProcess.py\<close>, each taking items until it catches \<open>Empty\<close>, in
  the execution in which the first \<open>get(block=False)\<close> of each worker raises \<open>Empty\<close> although
  the items are queued: no item is taken at all, both workers have left their loops, and
  the three items stay in the queue. The number of successful pops is \<open>0\<close>, not \<open>3\<close>.
\<close>

theorem Case4_early_Empty:
  "gets (Trace (Case4_system (\<lambda>ID i. 0) (\<lambda>s. 0) (\<lambda>s. False) 2 [1, 2, 3])) = []
   \<and> Case4_system (\<lambda>ID i. 0) (\<lambda>s. 0) (\<lambda>s. False) 2 [1, 2, 3]
       = \<lparr>InputQueue = [1, 2, 3], OutputQueue = [], Workers = [Returned, Returned],
          Output = [], Trace = [GetEmpty 0, GetEmpty 1]\<rparr>
   \<and> Case4 (\<lambda>ID i. 0) (\<lambda>s. 0) (\<lambda>s. False) 2 [1, 2, 3] = None"
  by code_simp




theorem drain_waits_for_expected_count_witness:
  "drained (nat 3)
       (UseProcess_system (\<lambda>ID i. (1 / 2, real_of_int i / 2)) (\<lambda>s. 1) (\<lambda>s. True) 2 3 4)
     = Some (take (nat 3) [(0, 2), (1, 2), (2, 2)])
   \<and> drained (nat 1) (UseProcess_system (\<lambda>ID i. (0, 0)) (\<lambda>s. 0) (\<lambda>s. True) 1 1 0) = None"
proof -
  let ?s = "UseProcess_system (\<lambda>ID i. (1 / 2, real_of_int i / 2)) (\<lambda>s. 1) (\<lambda>s. True) 2 3 4"
  let ?t = "UseProcess_system (\<lambda>ID i. (0, 0)) (\<lambda>s. 0) (\<lambda>s. True) 1 1 0"
  have "drained (nat 3) ?s = (if nat 3 \<le> length (map snd (puts (Trace ?s)))
      then Some (take (nat 3) (map snd (puts (Trace ?s)))) else None)"
    using drain_waits_for_expected_count
      [of 0 "UsingQueues_task (CPUHeavyFunction (\<lambda>ID i. (1 / 2, real_of_int i / 2)))"
          "nat 3" "\<lambda>s. 1" "\<lambda>s. True" "map (\<lambda>i. (4, i)) (range_py 0 3)" "nat 2"]
    by (simp add: UseProcess_system_def Let_def del: One_nat_def)
  moreover have "puts (Trace ?t) = []" by code_simp
  moreover have "drained (nat 1) ?t = (if nat 1 \<le> length (map snd (puts (Trace ?t)))
      then Some (take (nat 1) (map snd (puts (Trace ?t)))) else None)"
    using drain_waits_for_expected_count
      [of 0 "UsingQueues_task (CPUHeavyFunction (\<lambda>ID i. (0, 0)))"
          "nat 1" "\<lambda>s. 0" "\<lambda>s. True" "map (\<lambda>i. (0, i)) (range_py 0 1)" "nat 1"]
    by (simp add: UseProcess_system_def Let_def)
  ultimately show ?thesis by (simp add: UseProcess_example_trace del: One_nat_def)
qed

section \<open>Properties of the nested worker\<close>

lemma map_Suc_range_py: "map (\<lambda>k. k + 1) (range_py 0 K) = [1..K]"
proof (rule nth_equalityI)
  show "length (map (\<lambda>k. k + 1) (range_py 0 K)) = length [1..K]"
    by (simp add: range_py_def)
next
  fix i assume "i < length (map (\<lambda>k. k + 1) (range_py 0 K))"
  then have i: "int i < K" by (simp add: range_py_def)
  then have "[0..K - 1] ! i = 0 + int i" and "[1..K] ! i = 1 + int i"
    by (simp_all add: nth_upto)
  with i show "map (\<lambda>k. k + 1) (range_py 0 K) ! i = [1..K] ! i"
    by (simp add: range_py_def)
qed

lemma JobToPerformTasks_Sum_Inr:
  assumes "1 \<le> K" and "1 \<le> W"
  shows "JobToPerformTasks_Sum xs K W
     = Inr (py_int (sum_list xs / (0.5 * real_of_int K * real_of_int W)))"
proof -
  have "real_of_int K \<noteq> 0" "real_of_int W \<noteq> 0" using assms by auto
  then show ?thesis by (simp add: JobToPerformTasks_Sum_def)
qed

text \<open>
  C7. For an outer item \<open>NumbersToAdd\<close> that the nested worker \<open>w\<close> takes, with at least
  one pool worker, at least one sub-task and a weight of at least \<open>1\<close>: the pass creates a
  pool and submits to it exactly \<open>NumberOfSubtasksInOneTask\<close> sub-tasks, all with the same
  payload and with the sub-indices \<open>1, 2, ...\<close> in this order; every sub-task is run to its
  end, and the results come back in submission order; the pool is closed and joined, so
  that no process of it is alive, when the pass ends; the inner results are reduced to the
  integer \<open>Sum\<close>, their sum divided by \<open>0.5 * NumberOfSubtasksInOneTask * RandomWeight\<close> and
  truncated; the worker then holds \<open>(NumbersToAdd, Sum)\<close>, and its next step puts this pair
  into the outer \<open>OutputQueue\<close> and brings it back to the head of its loop, where alone it
  takes the next outer item.
\<close>

theorem nested_worker_iteration:
  fixes s :: "(real, real \<times> int) system"
  assumes "1 \<le> NumberOfPoolWorkers" and "1 \<le> NumberOfSubtasksInOneTask"
    and "1 \<le> draw NumbersToAdd"
    and "w < length (Workers s)" and "Workers s ! w = AtGet" and "InputQueue s = NumbersToAdd # q"
    and "ready s"
  shows "\<exists>MyPool.
     (let WeightedNumbersToAdd = draw NumbersToAdd * py_int NumbersToAdd;
          Tasks = map (\<lambda>SubtaskNumber. (WeightedNumbersToAdd, w, SubtaskNumber + 1))
                    (range_py 0 NumberOfSubtasksInOneTask);
          ListOfSums = map (SumRandomNumbers_sub rnd WeightedNumbersToAdd w)
                         [1..NumberOfSubtasksInOneTask];
          Sum' = py_int (sum_list ListOfSums
                   / (0.5 * real_of_int NumberOfSubtasksInOneTask
                        * real_of_int (draw NumbersToAdd)));
          body = JobToPerformTasks_body draw rnd pick NumberOfPoolWorkers
                   NumberOfSubtasksInOneTask
      in direct_submit (\<lambda>(n, p, k). Inr (SumRandomNumbers_sub rnd n p k))
             (pick NumbersToAdd) NumberOfPoolWorkers Tasks
           = Some (Inr (ListOfSums, MyPool))
       \<and> JobToPerformTasks_task draw rnd pick NumberOfPoolWorkers NumberOfSubtasksInOneTask
             w NumbersToAdd = Some (Inr ((NumbersToAdd, Sum'), MyPool))
       \<and> taskqueue MyPool = Tasks
       \<and> length (taskqueue MyPool) = nat NumberOfSubtasksInOneTask
       \<and> map fst (taskqueue MyPool)
           = replicate (nat NumberOfSubtasksInOneTask) WeightedNumbersToAdd
       \<and> map (\<lambda>t. snd (snd t)) (taskqueue MyPool) = [1..NumberOfSubtasksInOneTask]
       \<and> (\<forall>j<nat NumberOfSubtasksInOneTask. cache MyPool j
             = Some (Inr (SumRandomNumbers_sub rnd WeightedNumbersToAdd w (int j + 1))))
       \<and> phase MyPool = CLOSE \<and> processes MyPool = 0
       \<and> worker_step body ready w s
           = s\<lparr>InputQueue := q, Workers := (Workers s)[w := AtCompute NumbersToAdd],
               Trace := Trace s @ [Get w NumbersToAdd]\<rparr>
       \<and> worker_step body ready w (worker_step body ready w s)
           = s\<lparr>InputQueue := q, Workers := (Workers s)[w := AtPut (NumbersToAdd, Sum')],
               Trace := Trace s @ [Get w NumbersToAdd, Compute w NumbersToAdd]\<rparr>
       \<and> worker_step body ready w (worker_step body ready w (worker_step body ready w s))
           = s\<lparr>InputQueue := q, OutputQueue := OutputQueue s @ [(NumbersToAdd, Sum')],
               Workers := (Workers s)[w := AtGet],
               Trace := Trace s @ [Get w NumbersToAdd, Compute w NumbersToAdd,
                                   Put w (NumbersToAdd, Sum')]\<rparr>)"
proof -
  define K where "K = NumberOfSubtasksInOneTask"
  define n where "n = draw NumbersToAdd * py_int NumbersToAdd"
  define tasks where "tasks = map (\<lambda>SubtaskNumber. (n, w, SubtaskNumber + 1)) (range_py 0 K)"
  define g :: "int \<times> nat \<times> int \<Rightarrow> real"
    where "g = (\<lambda>(n, p, k). SumRandomNumbers_sub rnd n p k)"
  define MyPool :: "(int \<times> nat \<times> int, real) pool"
    where "MyPool = \<lparr>processes = 0, phase = CLOSE, taskqueue = tasks,
             cache = (\<lambda>j. if j < length tasks then Some (Inr (g (tasks ! j))) else None)\<rparr>"
  define ListOfSums where "ListOfSums = map (SumRandomNumbers_sub rnd n w) [1..K]"
  define Sum' where
    "Sum' = py_int (sum_list ListOfSums / (0.5 * real_of_int K * real_of_int (draw NumbersToAdd)))"
  define body where
    "body = JobToPerformTasks_body draw rnd pick NumberOfPoolWorkers NumberOfSubtasksInOneTask"
  have f: "(\<lambda>(n, p, k). Inr (SumRandomNumbers_sub rnd n p k) :: py_error + real) = (\<lambda>t. Inr (g t))"
    by (auto simp: g_def)
  have "map g tasks = map (SumRandomNumbers_sub rnd n w) (map (\<lambda>k. k + 1) (range_py 0 K))"
    by (simp add: tasks_def g_def comp_def)
  then have sums: "map g tasks = ListOfSums"
    by (simp add: ListOfSums_def map_Suc_range_py)
  have submit: "direct_submit (\<lambda>(n, p, k). Inr (SumRandomNumbers_sub rnd n p k))
      (pick NumbersToAdd) NumberOfPoolWorkers tasks = Some (Inr (ListOfSums, MyPool))"
    unfolding f direct_submit_eq [OF assms(1)] first_error_Inr
    by (simp add: sums MyPool_def)
  have reduce: "JobToPerformTasks_Sum ListOfSums K (draw NumbersToAdd) = Inr Sum'"
    using assms(2,3) by (simp add: JobToPerformTasks_Sum_Inr Sum'_def K_def)
  have task: "JobToPerformTasks_task draw rnd pick NumberOfPoolWorkers NumberOfSubtasksInOneTask
      w NumbersToAdd = Some (Inr ((NumbersToAdd, Sum'), MyPool))"
    using submit reduce
    by (simp add: JobToPerformTasks_task_def Let_def flip: n_def K_def tasks_def)
  then have b: "body w NumbersToAdd = Some (Inr (NumbersToAdd, Sum'))"
    by (simp add: body_def JobToPerformTasks_body_def)
  have len: "length tasks = nat K" by (simp add: tasks_def length_range_py)
  have payload: "map fst tasks = replicate (nat K) n"
    by (simp add: tasks_def comp_def map_replicate_const length_range_py)
  have idx: "map (\<lambda>t. snd (snd t)) tasks = [1..K]"
    by (simp add: tasks_def comp_def map_Suc_range_py)
  have nth: "tasks ! j = (n, w, int j + 1)" if "j < nat K" for j
  proof -
    from that have "j < length (range_py 0 K)" by (simp add: length_range_py)
    moreover from that have "range_py 0 K ! j = int j"
      by (simp add: range_py_def nth_upto)
    ultimately show ?thesis by (simp add: tasks_def)
  qed
  have cache: "\<forall>j<nat K. cache MyPool j = Some (Inr (SumRandomNumbers_sub rnd n w (int j + 1)))"
    using nth len by (simp add: MyPool_def g_def)
  have step1: "worker_step body ready w s
      = s\<lparr>InputQueue := q, Workers := (Workers s)[w := AtCompute NumbersToAdd],
             Trace := Trace s @ [Get w NumbersToAdd]\<rparr>"
    using assms(5,6,7) by (simp add: worker_step_def get_nowait_def)
  have step2: "worker_step body ready w (worker_step body ready w s)
      = s\<lparr>InputQueue := q, Workers := (Workers s)[w := AtPut (NumbersToAdd, Sum')],
             Trace := Trace s @ [Get w NumbersToAdd, Compute w NumbersToAdd]\<rparr>"
    unfolding step1 using assms(4) b by (simp add: worker_step_def)
  have step3: "worker_step body ready w (worker_step body ready w (worker_step body ready w s))
      = s\<lparr>InputQueue := q, OutputQueue := OutputQueue s @ [(NumbersToAdd, Sum')],
             Workers := (Workers s)[w := AtGet],
             Trace := Trace s @ [Get w NumbersToAdd, Compute w NumbersToAdd,
                                 Put w (NumbersToAdd, Sum')]\<rparr>"
    unfolding step2 using assms(4) by (simp add: worker_step_def)
  have "direct_submit (\<lambda>(n, p, k). Inr (SumRandomNumbers_sub rnd n p k))
             (pick NumbersToAdd) NumberOfPoolWorkers tasks
           = Some (Inr (ListOfSums, MyPool))
       \<and> JobToPerformTasks_task draw rnd pick NumberOfPoolWorkers NumberOfSubtasksInOneTask
             w NumbersToAdd = Some (Inr ((NumbersToAdd, Sum'), MyPool))
       \<and> taskqueue MyPool = tasks
       \<and> length (taskqueue MyPool) = nat K
       \<and> map fst (taskqueue MyPool) = replicate (nat K) n
       \<and> map (\<lambda>t. snd (snd t)) (taskqueue MyPool) = [1..K]
       \<and> (\<forall>j<nat K. cache MyPool j
             = Some (Inr (SumRandomNumbers_sub rnd n w (int j + 1))))
       \<and> phase MyPool = CLOSE \<and> processes MyPool = 0
       \<and> worker_step body ready w s
           = s\<lparr>InputQueue := q, Workers := (Workers s)[w := AtCompute NumbersToAdd],
               Trace := Trace s @ [Get w NumbersToAdd]\<rparr>
       \<and> worker_step body ready w (worker_step body ready w s)
           = s\<lparr>InputQueue := q, Workers := (Workers s)[w := AtPut (NumbersToAdd, Sum')],
               Trace := Trace s @ [Get w NumbersToAdd, Compute w NumbersToAdd]\<rparr>
       \<and> worker_step body ready w (worker_step body ready w (worker_step body ready w s))
           = s\<lparr>InputQueue := q, OutputQueue := OutputQueue s @ [(NumbersToAdd, Sum')],
               Workers := (Workers s)[w := AtGet],
               Trace := Trace s @ [Get w NumbersToAdd, Compute w NumbersToAdd,
                                   Put w (NumbersToAdd, Sum')]\<rparr>"
    using submit task len payload idx cache step1 step2 step3
    by (simp add: MyPool_def)
  then show ?thesis
    unfolding Let_def body_def Sum'_def ListOfSums_def tasks_def n_def K_def
    by (rule exI [of _ MyPool])
qed

lemma JobToPerformTasks_example:
  "map_option (map_sum id fst)
     (JobToPerformTasks_task (\<lambda>x. 1) (\<lambda>t i. real_of_int (snd (snd t)) / 5) (\<lambda>x p. 0) 2 4 0 7)
     = Some (Inr (7, 7))"
  by code_simp

theorem nested_worker_iteration_witness:
  "(1::int) \<le> 2 \<and> (1::int) \<le> 4 \<and> (0::nat) < length [AtGet :: (real, real \<times> int) process]
   \<and> [AtGet :: (real, real \<times> int) process] ! 0 = AtGet
   \<and> map (SumRandomNumbers_sub (\<lambda>t i. real_of_int (snd (snd t)) / 5) (1 * py_int 7) 0) [1..4]
       = [7 / 5, 14 / 5, 21 / 5, 28 / 5]
   \<and> py_int (sum_list [7 / 5, 14 / 5, 21 / 5, 28 / 5] / (0.5 * real_of_int 4 * real_of_int 1)) = 7
   \<and> (let body = JobToPerformTasks_body (\<lambda>x. 1) (\<lambda>t i. real_of_int (snd (snd t)) / 5)
                   (\<lambda>x p. 0) 2 4;
           s = \<lparr>InputQueue = [7], OutputQueue = [], Workers = [AtGet], Output = [],
                Trace = []\<rparr>
       in worker_step body (\<lambda>s. True) 0 (worker_step body (\<lambda>s. True) 0 s)
            = \<lparr>InputQueue = [], OutputQueue = [], Workers = [AtPut (7, 7)], Output = [],
               Trace = [Get 0 7, Compute 0 7]\<rparr>
        \<and> worker_step body (\<lambda>s. True) 0
             (worker_step body (\<lambda>s. True) 0 (worker_step body (\<lambda>s. True) 0 s))
            = \<lparr>InputQueue = [], OutputQueue = [(7, 7)], Workers = [AtGet], Output = [],
               Trace = [Get 0 7, Compute 0 7, Put 0 (7, 7)]\<rparr>)"
proof -
  let ?rnd = "\<lambda>(t :: int \<times> nat \<times> int) (i :: int). real_of_int (snd (snd t)) / 5"
  let ?s = "\<lparr>InputQueue = [7], OutputQueue = [], Workers = [AtGet], Output = [], Trace = []\<rparr>
    :: (real, real \<times> int) system"
  have sums: "map (SumRandomNumbers_sub ?rnd (1 * py_int 7) 0) [1..4]
      = [7 / 5, 14 / 5, 21 / 5, 28 / 5]"
    by code_simp
  have Sum': "py_int (sum_list [7 / 5, 14 / 5, 21 / 5, 28 / 5 :: real]
      / (0.5 * real_of_int 4 * real_of_int 1)) = 7"
    by code_simp
  note pass = nested_worker_iteration
    [of 2 4 "\<lambda>x. 1" 7 0 ?s "[]" "\<lambda>s. True" ?rnd "\<lambda>x p. 0", unfolded Let_def sums Sum']
  show ?thesis
    unfolding Let_def using pass sums Sum' by auto
qed


end
